theory Spec2Isabelle
  imports Main "HOL-Library.Char_ord" "HOL-Library.List_Lexorder"
begin

section \<open>Text: characters, string methods and regular expressions\<close>

text \<open>
  A Python \<open>str\<close> is a sequence of code points. The model uses \<^typ>\<open>string\<close>, so a
  character is a code point in the range U+0000 to U+00FF (ASCII and Latin-1). On this
  range \<open>str.lower\<close> stays inside the range, and the tables below are those of the
  Unicode character database restricted to it.
\<close>

definition whitespace :: string where
  "whitespace =
     [CHR 0x09, CHR 0x0A, CHR 0x0B, CHR 0x0C, CHR 0x0D, CHR 0x1C,
      CHR 0x1D, CHR 0x1E, CHR 0x1F, CHR '' '', CHR 0x85, CHR 0xA0]"

text \<open>\<open>str.isspace\<close> and the class \<open>\\s\<close> of \<open>re\<close> (they agree on every code point).\<close>

definition isspace :: "char \<Rightarrow> bool" where
  "isspace c = (c \<in> set whitespace)"

text \<open>The class \<open>\\d\<close>: the decimal digits.\<close>

definition isdecimal :: "char \<Rightarrow> bool" where
  "isdecimal c = (c \<in> set ''0123456789'')"

text \<open>
  The letters that have a lower case form, A to Z and U+00C0 to U+00DE without the
  multiplication sign, and their lower case forms in the same order, 32 code points up.
\<close>

definition uppercase :: string where
  "uppercase = ''ABCDEFGHIJKLMNOPQRSTUVWXYZ'' @
     [CHR 0xC0, CHR 0xC1, CHR 0xC2, CHR 0xC3, CHR 0xC4, CHR 0xC5,
      CHR 0xC6, CHR 0xC7, CHR 0xC8, CHR 0xC9, CHR 0xCA, CHR 0xCB,
      CHR 0xCC, CHR 0xCD, CHR 0xCE, CHR 0xCF, CHR 0xD0, CHR 0xD1,
      CHR 0xD2, CHR 0xD3, CHR 0xD4, CHR 0xD5, CHR 0xD6, CHR 0xD8,
      CHR 0xD9, CHR 0xDA, CHR 0xDB, CHR 0xDC, CHR 0xDD, CHR 0xDE]"

definition lowercase :: string where
  "lowercase = ''abcdefghijklmnopqrstuvwxyz'' @
     [CHR 0xE0, CHR 0xE1, CHR 0xE2, CHR 0xE3, CHR 0xE4, CHR 0xE5,
      CHR 0xE6, CHR 0xE7, CHR 0xE8, CHR 0xE9, CHR 0xEA, CHR 0xEB,
      CHR 0xEC, CHR 0xED, CHR 0xEE, CHR 0xEF, CHR 0xF0, CHR 0xF1,
      CHR 0xF2, CHR 0xF3, CHR 0xF4, CHR 0xF5, CHR 0xF6, CHR 0xF8,
      CHR 0xF9, CHR 0xFA, CHR 0xFB, CHR 0xFC, CHR 0xFD, CHR 0xFE]"

text \<open>
  The other alphanumeric code points: the ordinal indicators, the superscript digits,
  the micro sign, the vulgar fractions, the sharp s and the y with diaeresis.
\<close>

definition other_alnum :: string where
  "other_alnum =
     [CHR 0xAA, CHR 0xB2, CHR 0xB3, CHR 0xB5, CHR 0xB9, CHR 0xBA,
      CHR 0xBC, CHR 0xBD, CHR 0xBE, CHR 0xDF, CHR 0xFF]"

text \<open>
  The class \<open>\\w\<close>: every alphanumeric code point (letters, digits, and the numeric
  characters such as superscript two and the vulgar fractions) and the underscore.
\<close>

definition isalnum :: "char \<Rightarrow> bool" where
  "isalnum c = (c \<in> set (''0123456789'' @ uppercase @ lowercase @ other_alnum))"

definition isword :: "char \<Rightarrow> bool" where
  "isword c = (isalnum c \<or> c = CHR ''_'')"

text \<open>\<open>str.lower\<close>, one character at a time.\<close>

definition lower_chr :: "char \<Rightarrow> char" where
  "lower_chr c = (case map_of (zip uppercase lowercase) c of None \<Rightarrow> c | Some l \<Rightarrow> l)"

text \<open>
  \<open>str.upper\<close>, one character at a time. The uppercase forms of U+00B5, U+00DF and U+00FF
  lie outside the modelled range; those three characters are left unchanged here. The
  program calls \<open>upper\<close> only on a string that has matched \<open>^a[1-5]$\<close>.
\<close>

definition upper_chr :: "char \<Rightarrow> char" where
  "upper_chr c = (case map_of (zip lowercase uppercase) c of None \<Rightarrow> c | Some u \<Rightarrow> u)"

definition lower :: "string \<Rightarrow> string" where
  "lower s = map lower_chr s"

definition upper :: "string \<Rightarrow> string" where
  "upper s = map upper_chr s"

text \<open>\<open>str.strip()\<close> removes the leading and the trailing whitespace.\<close>

definition strip :: "string \<Rightarrow> string" where
  "strip s = rev (dropWhile isspace (rev (dropWhile isspace s)))"

text \<open>\<open>s.split(c)\<close> for a one-character separator; \<open>''''.split('','')\<close> is \<open>['''']\<close>.\<close>

fun split_chr :: "char \<Rightarrow> string \<Rightarrow> string list" where
  "split_chr c [] = [[]]"
| "split_chr c (x # xs) =
     (if x = c then [] # split_chr c xs
      else (case split_chr c xs of p # ps \<Rightarrow> (x # p) # ps | [] \<Rightarrow> [[x]]))"

text \<open>The slice \<open>s[i:j]\<close>.\<close>

definition slice :: "string \<Rightarrow> nat \<Rightarrow> nat \<Rightarrow> string" where
  "slice s i j = take (j - i) (drop i s)"

subsection \<open>The regular expressions of the program\<close>

text \<open>
  The fragment of \<open>re\<close> that the two scripts use: literals, character classes, sequence,
  ordered alternation, the greedy \<open>?\<close>, the greedy \<open>*\<close> and \<open>+\<close> and the lazy \<open>*?\<close> on a
  one-character atom, one capturing group, and the anchors \<open>^\<close> and \<open>$\<close>.
\<close>

datatype rx =
    Eps
  | Chr char
  | Cls "char \<Rightarrow> bool"
  | Seq rx rx
  | Alt rx rx
  | Opt rx
  | Star "char \<Rightarrow> bool"
  | Plus "char \<Rightarrow> bool"
  | LazyStar "char \<Rightarrow> bool"
  | Grp rx
  | Bol
  | Eol

fun Lit :: "string \<Rightarrow> rx" where
  "Lit [] = Eps"
| "Lit [c] = Chr c"
| "Lit (c # cs) = Seq (Chr c) (Lit cs)"

text \<open>The number of consecutive characters of \<open>s\<close> from position \<open>i\<close> that are in the class.\<close>

definition run :: "(char \<Rightarrow> bool) \<Rightarrow> string \<Rightarrow> nat \<Rightarrow> nat" where
  "run p s i = length (takeWhile p (drop i s))"

text \<open>
  \<open>rx_at r s i\<close> lists the ways \<open>r\<close> matches \<open>s\<close> starting at position \<open>i\<close>, in the order
  in which the backtracking matcher tries them: each is the end position and the span of
  group 1 when the group took part. The first element is the match that \<open>re\<close> reports.
  \<open>$\<close> matches at the end of the string and before a final newline.
\<close>

primrec rx_at :: "rx \<Rightarrow> string \<Rightarrow> nat \<Rightarrow> (nat \<times> (nat \<times> nat) option) list" where
  "rx_at Eps s i = [(i, None)]"
| "rx_at (Chr c) s i = (if i < length s \<and> s ! i = c then [(Suc i, None)] else [])"
| "rx_at (Cls p) s i = (if i < length s \<and> p (s ! i) then [(Suc i, None)] else [])"
| "rx_at (Seq a b) s i =
     concat (map (\<lambda>m. map (\<lambda>m'. (fst m', case snd m' of None \<Rightarrow> snd m | Some g \<Rightarrow> Some g))
                          (rx_at b s (fst m)))
                 (rx_at a s i))"
| "rx_at (Alt a b) s i = rx_at a s i @ rx_at b s i"
| "rx_at (Opt a) s i = rx_at a s i @ [(i, None)]"
| "rx_at (Star p) s i = map (\<lambda>n. (i + n, None)) (rev [0..<Suc (run p s i)])"
| "rx_at (Plus p) s i = map (\<lambda>n. (i + n, None)) (rev [1..<Suc (run p s i)])"
| "rx_at (LazyStar p) s i = map (\<lambda>n. (i + n, None)) [0..<Suc (run p s i)]"
| "rx_at (Grp a) s i = map (\<lambda>m. (fst m, Some (i, fst m))) (rx_at a s i)"
| "rx_at Bol s i = (if i = 0 then [(i, None)] else [])"
| "rx_at Eol s i =
     (if i = length s \<or> (Suc i = length s \<and> s ! i = CHR 0x0A) then [(i, None)] else [])"

text \<open>
  The flag \<open>re.IGNORECASE\<close>: a literal or a class matches a character when it matches one
  of its case variants.
\<close>

primrec ignorecase :: "rx \<Rightarrow> rx" where
  "ignorecase Eps = Eps"
| "ignorecase (Chr c) = Cls (\<lambda>x. lower_chr x = lower_chr c)"
| "ignorecase (Cls p) = Cls (\<lambda>x. p x \<or> p (lower_chr x) \<or> p (upper_chr x))"
| "ignorecase (Seq a b) = Seq (ignorecase a) (ignorecase b)"
| "ignorecase (Alt a b) = Alt (ignorecase a) (ignorecase b)"
| "ignorecase (Opt a) = Opt (ignorecase a)"
| "ignorecase (Star p) = Star (\<lambda>x. p x \<or> p (lower_chr x) \<or> p (upper_chr x))"
| "ignorecase (Plus p) = Plus (\<lambda>x. p x \<or> p (lower_chr x) \<or> p (upper_chr x))"
| "ignorecase (LazyStar p) = LazyStar (\<lambda>x. p x \<or> p (lower_chr x) \<or> p (upper_chr x))"
| "ignorecase (Grp a) = Grp (ignorecase a)"
| "ignorecase Bol = Bol"
| "ignorecase Eol = Eol"

text \<open>A match object: where the match starts and ends, and the span of group 1.\<close>

record match =
  m_start :: nat
  m_end :: nat
  m_group1 :: "(nat \<times> nat) option"

definition match_at :: "rx \<Rightarrow> string \<Rightarrow> nat \<Rightarrow> match option" where
  "match_at r s i = (case rx_at r s i of [] \<Rightarrow> None
     | m # _ \<Rightarrow> Some \<lparr>m_start = i, m_end = fst m, m_group1 = snd m\<rparr>)"

text \<open>\<open>re.match\<close> tries position 0 only; \<open>re.search\<close> takes the leftmost position that matches.\<close>

definition re_match :: "rx \<Rightarrow> string \<Rightarrow> match option" where
  "re_match r s = match_at r s 0"

definition re_search :: "rx \<Rightarrow> string \<Rightarrow> match option" where
  "re_search r s = (case List.find (\<lambda>i. match_at r s i \<noteq> None) [0..<Suc (length s)] of
     None \<Rightarrow> None | Some i \<Rightarrow> match_at r s i)"

text \<open>\<open>m.group(1)\<close>: the text of group 1, or \<open>None\<close> when the group took no part.\<close>

definition group1 :: "match \<Rightarrow> string \<Rightarrow> string option" where
  "group1 m s = (case m_group1 m of None \<Rightarrow> None | Some (a, b) \<Rightarrow> Some (slice s a b))"

text \<open>
  \<open>re.sub(r, repl, s)\<close> for a replacement without group references: every match found
  scanning from the left is replaced by \<open>repl\<close>, each search resuming where the last
  match ended. No pattern of the program matches the empty string; here an empty match
  changes nothing and the scan moves on by one character.
\<close>

function re_sub_from :: "rx \<Rightarrow> string \<Rightarrow> string \<Rightarrow> nat \<Rightarrow> string" where
  "re_sub_from r repl s i =
     (if length s \<le> i then []
      else (case match_at r s i of
              None \<Rightarrow> s ! i # re_sub_from r repl s (Suc i)
            | Some m \<Rightarrow> if i < m_end m then repl @ re_sub_from r repl s (m_end m)
                        else s ! i # re_sub_from r repl s (Suc i)))"
  by pat_completeness auto
termination
  by (relation "measure (\<lambda>(r, repl, s, i). length s - i)") auto

definition re_sub :: "rx \<Rightarrow> string \<Rightarrow> string \<Rightarrow> string" where
  "re_sub r repl s = re_sub_from r repl s 0"

text \<open>
  \<open>re.split(r, s)\<close> for a pattern without groups: the pieces of \<open>s\<close> between the matches.
  \<open>start\<close> is where the current piece began.
\<close>

function re_split_from :: "rx \<Rightarrow> string \<Rightarrow> nat \<Rightarrow> nat \<Rightarrow> string list" where
  "re_split_from r s start i =
     (if length s \<le> i then [slice s start (length s)]
      else (case match_at r s i of
              None \<Rightarrow> re_split_from r s start (Suc i)
            | Some m \<Rightarrow> if i < m_end m then slice s start i # re_split_from r s (m_end m) (m_end m)
                        else re_split_from r s start (Suc i)))"
  by pat_completeness auto
termination
  by (relation "measure (\<lambda>(r, s, start, i). length s - i)") auto

definition re_split :: "rx \<Rightarrow> string \<Rightarrow> string list" where
  "re_split r s = re_split_from r s 0 0"

section \<open>Values and exceptions\<close>

text \<open>
  A field of a stored document holds a string, a number or \<open>None\<close>. The exceptions are
  those the scripts can meet: a string method called on a number, the division by a zero
  document count, the read of a local variable that was never bound, and a failure
  reported by the document store or the file system.
\<close>

datatype pyval = PNone | PStr string | PNum int

datatype exn = AttributeError | ZeroDivisionError | UnboundLocalError | StoreError | OSError

text \<open>Truth value testing, as in \<open>if not x\<close>.\<close>

fun truthy :: "pyval \<Rightarrow> bool" where
  "truthy PNone = False"
| "truthy (PStr s) = (s \<noteq> [])"
| "truthy (PNum n) = (n \<noteq> 0)"

section \<open>clean.py: the language normalizer\<close>

subsection \<open>normalize_proficiency\<close>

definition a_level :: rx where
  "a_level = Seq Bol (Seq (Chr CHR ''a'') (Seq (Cls (\<lambda>c. c \<in> set ''12345'')) Eol))"

definition proficiency_mapping :: "(string \<times> string) list" where
  "proficiency_mapping =
    [(''beginner'', ''Beginner''),
     (''basic'', ''Beginner''),
     (''elementary'', ''Beginner''),
     (''novice'', ''Beginner''),
     (''fundamental'', ''Beginner''),
     (''intermediate'', ''Intermediate''),
     (''medium'', ''Intermediate''),
     (''mid'', ''Intermediate''),
     (''mid level'', ''Intermediate''),
     (''mid-level'', ''Intermediate''),
     (''advanced'', ''Advanced''),
     (''advance'', ''Advanced''),
     (''expert'', ''Advanced''),
     (''fluent'', ''Advanced''),
     (''proficient'', ''Advanced''),
     (''professional'', ''Advanced'')]"

fun normalize_proficiency :: "pyval \<Rightarrow> exn + string option" where
  "normalize_proficiency PNone = Inr None"
| "normalize_proficiency (PNum n) = (if n = 0 then Inr None else Inl AttributeError)"
| "normalize_proficiency (PStr proficiency) =
     (if proficiency = [] then Inr None
      else (let prof = strip (lower proficiency) in
            if re_match a_level prof \<noteq> None then Inr (Some (upper prof))
            else Inr (map_of proficiency_mapping prof)))"

subsection \<open>extract_proficiency_from_name\<close>

text \<open>The group \<open>(beginner|basic|intermediate|advance[d]?|a[1-5])\<close> and the four patterns.\<close>

definition level_group :: rx where
  "level_group =
     Grp (Alt (Lit ''beginner'') (Alt (Lit ''basic'') (Alt (Lit ''intermediate'')
         (Alt (Seq (Lit ''advance'') (Opt (Cls (\<lambda>c. c \<in> set ''d''))))
              (Seq (Chr CHR ''a'') (Cls (\<lambda>c. c \<in> set ''12345'')))))))"

definition proficiency_patterns :: "rx list" where
  "proficiency_patterns =
    [Seq (Chr CHR ''('') (Seq (Grp (LazyStar (\<lambda>c. c \<noteq> CHR 0x0A))) (Chr CHR '')'')),
     Seq (Chr CHR ''-'') (Seq (Star (\<lambda>c. c = CHR '' '')) level_group),
     Seq (Chr CHR '','') (Seq (Star (\<lambda>c. c = CHR '' '')) level_group),
     Seq (Chr CHR '' '') (Seq level_group Eol)]"

text \<open>
  The loop over the patterns, left at the first pattern that matches: the result is
  the string with the matches of that pattern deleted and the text of group 1.
\<close>

fun try_patterns :: "rx list \<Rightarrow> string \<Rightarrow> string \<times> string option" where
  "try_patterns [] language_str = (language_str, None)"
| "try_patterns (pattern # rest) language_str =
     (case re_search (ignorecase pattern) language_str of
        Some m \<Rightarrow> (re_sub (ignorecase pattern) [] language_str, group1 m language_str)
      | None \<Rightarrow> try_patterns rest language_str)"

definition as_pyval :: "string option \<Rightarrow> pyval" where
  "as_pyval v = (case v of None \<Rightarrow> PNone | Some s \<Rightarrow> PStr s)"

definition extract_proficiency_from_name :: "string \<Rightarrow> exn + (string \<times> string option)" where
  "extract_proficiency_from_name language_str =
     (case try_patterns proficiency_patterns (strip (lower language_str)) of
        (cleaned, extracted_proficiency) \<Rightarrow>
          (case normalize_proficiency (as_pyval extracted_proficiency) of
             Inl e \<Rightarrow> Inl e
           | Inr p \<Rightarrow> Inr (strip cleaned, p)))"

subsection \<open>process_batch\<close>

text \<open>
  An entry of the \<open>languages\<close> array is a dictionary: the value under \<open>language\<close>, the
  value under \<open>proficiency\<close> (\<open>None\<close> when the key is absent), and whatever other keys it
  has. A document has an identity and may have a \<open>languages\<close> array.
\<close>

record lang_obj =
  language :: "pyval option"
  proficiency :: "pyval option"
  others :: "(string \<times> pyval) list"

record doc =
  doc_id :: nat
  languages :: "lang_obj list option"

text \<open>
  The collection: the \<open>update_one\<close> calls issued so far, and the identities for which
  the store raises instead of writing.
\<close>

record collection =
  issued :: "(nat \<times> lang_obj list) list"
  refused :: "nat list"

definition update_one :: "collection \<Rightarrow> nat \<Rightarrow> lang_obj list \<Rightarrow> collection \<times> exn option" where
  "update_one c i v =
     (c\<lparr>issued := issued c @ [(i, v)]\<rparr>, if i \<in> set (refused c) then Some StoreError else None)"

text \<open>\<open>lang_obj.get('proficiency')\<close>.\<close>

definition get_proficiency :: "lang_obj \<Rightarrow> pyval" where
  "get_proficiency lang_obj = (case proficiency lang_obj of None \<Rightarrow> PNone | Some v \<Rightarrow> v)"

definition and_pattern :: rx where
  "and_pattern = Seq (Plus isspace) (Seq (Lit ''and'') (Plus isspace))"

text \<open>Lines 125 to 130: the comma split, then the split on the word \<open>and\<close>.\<close>

definition and_split :: "string \<Rightarrow> string list" where
  "and_split item = map strip (re_split and_pattern item)"

definition final_languages :: "string \<Rightarrow> string list" where
  "final_languages lang_str =
     concat (map and_split (map strip (split_chr CHR '','' lang_str)))"

text \<open>Lines 136 to 138: the extracted level, or the entry's own field when there is none.\<close>

definition final_proficiency :: "lang_obj \<Rightarrow> string option \<Rightarrow> exn + string option" where
  "final_proficiency lang_obj extracted_prof =
     (if extracted_prof = None \<or> extracted_prof = Some []
      then normalize_proficiency (get_proficiency lang_obj)
      else Inr extracted_prof)"

text \<open>The body of the loop over \<open>final_languages\<close>: the entries it appends.\<close>

definition process_lang :: "lang_obj \<Rightarrow> string \<Rightarrow> exn + lang_obj list" where
  "process_lang lang_obj lang =
     (if lang = [] then Inr []
      else (case extract_proficiency_from_name lang of
              Inl e \<Rightarrow> Inl e
            | Inr (clean_lang, extracted_prof) \<Rightarrow>
                (case final_proficiency lang_obj extracted_prof of
                   Inl e \<Rightarrow> Inl e
                 | Inr final \<Rightarrow>
                     Inr (if clean_lang \<noteq> []
                          then [\<lparr>language = Some (PStr (strip clean_lang)),
                                 proficiency = Some (as_pyval final), others = []\<rparr>]
                          else []))))"

text \<open>A loop that appends what each step yields; an exception leaves the loop.\<close>

fun collect :: "('a \<Rightarrow> exn + 'b list) \<Rightarrow> 'a list \<Rightarrow> exn + 'b list" where
  "collect f [] = Inr []"
| "collect f (x # xs) =
     (case f x of
        Inl e \<Rightarrow> Inl e
      | Inr ys \<Rightarrow> (case collect f xs of Inl e \<Rightarrow> Inl e | Inr zs \<Rightarrow> Inr (ys @ zs)))"

definition process_lang_obj :: "lang_obj \<Rightarrow> exn + lang_obj list" where
  "process_lang_obj lang_obj =
     (case language lang_obj of
        None \<Rightarrow> Inr []
      | Some lang_str \<Rightarrow>
          if \<not> truthy lang_str then Inr []
          else (case lang_str of
                  PStr s \<Rightarrow> collect (process_lang lang_obj) (final_languages s)
                | _ \<Rightarrow> Inl AttributeError))"

definition cleaned_languages :: "lang_obj list \<Rightarrow> exn + lang_obj list" where
  "cleaned_languages current_languages = collect process_lang_obj current_languages"

text \<open>
  One turn of the loop over the batch, on the collection and the two counters. An
  exception of the turn is caught and counted.
\<close>

definition process_doc :: "doc \<Rightarrow> collection \<times> nat \<times> nat \<Rightarrow> collection \<times> nat \<times> nat" where
  "process_doc d st =
     (case st of (c, batch_updates, batch_errors) \<Rightarrow>
        (case languages d of
           None \<Rightarrow> (c, batch_updates, batch_errors)
         | Some current_languages \<Rightarrow>
             (case cleaned_languages current_languages of
                Inl e \<Rightarrow> (c, batch_updates, batch_errors + 1)
              | Inr cleaned \<Rightarrow>
                  if cleaned \<noteq> current_languages
                  then (case update_one c (doc_id d) cleaned of
                          (c', Some e) \<Rightarrow> (c', batch_updates, batch_errors + 1)
                        | (c', None) \<Rightarrow> (c', batch_updates + 1, batch_errors))
                  else (c, batch_updates, batch_errors))))"

definition process_batch :: "doc list \<Rightarrow> collection \<Rightarrow> collection \<times> nat \<times> nat" where
  "process_batch batch c = foldl (\<lambda>st d. process_doc d st) (c, 0, 0) batch"

subsection \<open>clean_languages\<close>

text \<open>
  What the run meets outside the program: whether \<open>MongoClient(db_uri)\<close> raises, what
  \<open>count_documents\<close> answers, the documents the cursor yields and the exception it may
  raise after them, the collection, and whether the client has been closed.
\<close>

record store =
  connect_error :: "exn option"
  count_result :: "exn + nat"
  found :: "doc list"
  cursor_error :: "exn option"
  coll :: collection
  closed :: bool

text \<open>
  The returned dictionary: status \<open>completed\<close> with \<open>total_updates\<close> and \<open>total_errors\<close>
  (the execution time is left out), or status \<open>failed\<close> with the error.
\<close>

datatype result = Completed nat nat | Failed exn

text \<open>
  The loop over the cursor. The state is \<open>current_batch\<close>, \<open>total_updates\<close>,
  \<open>total_errors\<close>, \<open>processed\<close> and the collection; the progress line divides by
  \<open>total_docs\<close>. What was written before an exception stays written.
\<close>

fun batches :: "nat \<Rightarrow> nat \<Rightarrow> doc list \<Rightarrow> doc list \<times> nat \<times> nat \<times> nat \<times> collection
    \<Rightarrow> exn option \<times> doc list \<times> nat \<times> nat \<times> nat \<times> collection" where
  "batches batch_size total_docs [] st = (None, st)"
| "batches batch_size total_docs (d # ds) (current_batch, total_updates, total_errors, processed, c) =
     (if length (current_batch @ [d]) = batch_size
      then (case process_batch (current_batch @ [d]) c of
              (c', updates, errors) \<Rightarrow>
                if total_docs = 0
                then (Some ZeroDivisionError,
                      current_batch @ [d], total_updates + updates, total_errors + errors,
                      processed + length (current_batch @ [d]), c')
                else batches batch_size total_docs ds
                      ([], total_updates + updates, total_errors + errors,
                       processed + length (current_batch @ [d]), c'))
      else batches batch_size total_docs ds
            (current_batch @ [d], total_updates, total_errors, processed, c))"

text \<open>The \<open>try\<close> block after the client exists: its outcome and the collection it leaves.\<close>

definition try_body :: "store \<Rightarrow> nat \<Rightarrow> (exn + result) \<times> collection" where
  "try_body st batch_size =
     (case count_result st of
        Inl e \<Rightarrow> (Inl e, coll st)
      | Inr total_docs \<Rightarrow>
          (case batches batch_size total_docs (found st) ([], 0, 0, 0, coll st) of
             (Some e, current_batch, total_updates, total_errors, processed, c) \<Rightarrow> (Inl e, c)
           | (None, current_batch, total_updates, total_errors, processed, c) \<Rightarrow>
               (case cursor_error st of
                  Some e \<Rightarrow> (Inl e, c)
                | None \<Rightarrow>
                    if current_batch \<noteq> []
                    then (case process_batch current_batch c of
                            (c', updates, errors) \<Rightarrow>
                              (Inr (Completed (total_updates + updates) (total_errors + errors)), c'))
                    else (Inr (Completed total_updates total_errors), c))))"

text \<open>
  \<open>clean_languages\<close> returns a result or lets an exception out. When the constructor of
  the client raises, the handler prepares the \<open>failed\<close> result, and the \<open>finally\<close> clause
  then reads \<open>client\<close>, which was never bound: the \<open>UnboundLocalError\<close> replaces the
  result. Otherwise an exception of the \<open>try\<close> block becomes the \<open>failed\<close> result and the
  client is closed.
\<close>

definition clean_languages :: "store \<Rightarrow> nat \<Rightarrow> (exn + result) \<times> store" where
  "clean_languages st batch_size =
     (case connect_error st of
        Some e \<Rightarrow> (Inl UnboundLocalError, st)
      | None \<Rightarrow>
          (case try_body st batch_size of
             (Inl e, c) \<Rightarrow> (Inr (Failed e), st\<lparr>coll := c, closed := True\<rparr>)
           | (Inr res, c) \<Rightarrow> (Inr res, st\<lparr>coll := c, closed := True\<rparr>)))"

section \<open>clean_skills.py: the skill normalizer\<close>

text \<open>
  The class of leading marks that \<open>clean_skill_name\<close> deletes: whitespace, \<open>-\<close>, \<open>*\<close>,
  \<open>+\<close>, \<open>>\<close> and the middle dot U+00B7. Its other glyphs lie outside the modelled range
  of characters.
\<close>

definition bullet :: "char \<Rightarrow> bool" where
  "bullet c = (isspace c \<or> c \<in> set ''-*+>'' \<or> c = CHR 0xB7)"

fun clean_skill_name :: "pyval \<Rightarrow> string" where
  "clean_skill_name (PStr skill) = strip (re_sub (Seq Bol (Plus bullet)) [] skill)"
| "clean_skill_name _ = []"

text \<open>
  \<open>unicodedata.normalize('NFKD', s).encode('ASCII', 'ignore').decode('ASCII')\<close>: each
  character is replaced by the ASCII characters of its compatibility decomposition. An
  ASCII character (its top bit \<open>digit7\<close> is clear) is its own decomposition; the table
  lists the code points from U+0080 to U+00FF whose decomposition has ASCII characters,
  and every other one is dropped.
\<close>

definition nfkd_ascii_table :: "(string \<times> string) list" where
  "nfkd_ascii_table =
    [([CHR 0xA0, CHR 0xA8, CHR 0xAF, CHR 0xB4, CHR 0xB8], '' ''),
     ([CHR 0xAA, CHR 0xE0, CHR 0xE1, CHR 0xE2, CHR 0xE3, CHR 0xE4, CHR 0xE5], ''a''),
     ([CHR 0xB2], ''2''),
     ([CHR 0xB3], ''3''),
     ([CHR 0xB9], ''1''),
     ([CHR 0xBA, CHR 0xF2, CHR 0xF3, CHR 0xF4, CHR 0xF5, CHR 0xF6], ''o''),
     ([CHR 0xBC], ''14''),
     ([CHR 0xBD], ''12''),
     ([CHR 0xBE], ''34''),
     ([CHR 0xC0, CHR 0xC1, CHR 0xC2, CHR 0xC3, CHR 0xC4, CHR 0xC5], ''A''),
     ([CHR 0xC7], ''C''),
     ([CHR 0xC8, CHR 0xC9, CHR 0xCA, CHR 0xCB], ''E''),
     ([CHR 0xCC, CHR 0xCD, CHR 0xCE, CHR 0xCF], ''I''),
     ([CHR 0xD1], ''N''),
     ([CHR 0xD2, CHR 0xD3, CHR 0xD4, CHR 0xD5, CHR 0xD6], ''O''),
     ([CHR 0xD9, CHR 0xDA, CHR 0xDB, CHR 0xDC], ''U''),
     ([CHR 0xDD], ''Y''),
     ([CHR 0xE7], ''c''),
     ([CHR 0xE8, CHR 0xE9, CHR 0xEA, CHR 0xEB], ''e''),
     ([CHR 0xEC, CHR 0xED, CHR 0xEE, CHR 0xEF], ''i''),
     ([CHR 0xF1], ''n''),
     ([CHR 0xF9, CHR 0xFA, CHR 0xFB, CHR 0xFC], ''u''),
     ([CHR 0xFD, CHR 0xFF], ''y'')]"

definition nfkd_ascii :: "char \<Rightarrow> string" where
  "nfkd_ascii c =
     (if \<not> digit7 c then [c]
      else (case List.find (\<lambda>row. c \<in> set (fst row)) nfkd_ascii_table of
              None \<Rightarrow> [] | Some row \<Rightarrow> snd row))"

definition ascii_fold :: "string \<Rightarrow> string" where
  "ascii_fold s = concat (map nfkd_ascii s)"

fun normalize_for_comparison :: "pyval \<Rightarrow> string" where
  "normalize_for_comparison (PStr skill) =
     ascii_fold (strip (re_sub (Plus isspace) '' ''
       (re_sub (Cls (\<lambda>c. \<not> (isword c \<or> isspace c))) [] (lower skill))))"
| "normalize_for_comparison _ = []"

definition is_valid_skill :: "string \<Rightarrow> string \<Rightarrow> bool" where
  "is_valid_skill skill normalized_skill =
     (if normalized_skill = [] then False
      else if re_match (Seq Bol (Seq (Plus isdecimal) Eol)) normalized_skill \<noteq> None then False
      else if length normalized_skill = 0 \<and> length skill > 0 then False
      else if length normalized_skill < 2 then False
      else True)"

text \<open>
  The loop of \<open>process_skills_file\<close> over the column, on \<open>normalized_map\<close> and
  \<open>cleaned_skills\<close>.
\<close>

fun skills_loop :: "pyval list \<Rightarrow> (string \<rightharpoonup> string) \<times> string list
    \<Rightarrow> (string \<rightharpoonup> string) \<times> string list" where
  "skills_loop [] st = st"
| "skills_loop (skill # rest) (normalized_map, cleaned_skills) =
     (let cleaned_skill = clean_skill_name skill;
          normalized_skill = normalize_for_comparison (PStr cleaned_skill)
      in if is_valid_skill cleaned_skill normalized_skill \<and> normalized_map normalized_skill = None
         then skills_loop rest
                (normalized_map(normalized_skill \<mapsto> cleaned_skill), cleaned_skills @ [cleaned_skill])
         else skills_loop rest (normalized_map, cleaned_skills))"

text \<open>The list after \<open>cleaned_skills.sort()\<close>: strings compare by code point.\<close>

definition sorted_skills :: "pyval list \<Rightarrow> string list" where
  "sorted_skills skills = sort (snd (skills_loop skills (Map.empty, [])))"

text \<open>
  \<open>process_skills_file\<close>: the input is what \<open>read_csv\<close> gives, an error or the columns of
  the table; the output is the rows written to the output file, if it is written.
\<close>

definition process_skills_file :: "exn + (string \<times> pyval list) list \<Rightarrow> string list option" where
  "process_skills_file input =
     (case input of
        Inl e \<Rightarrow> None
      | Inr df \<Rightarrow>
          (case map_of df ''skills'' of
             None \<Rightarrow> None
           | Some skills \<Rightarrow> Some (''skills'' # sorted_skills skills)))"

section \<open>The specification's wording, for comparison with the code\<close>

text \<open>The marker that step 3 of the specification extracts from a candidate, if any.\<close>

definition extracted_marker :: "string \<Rightarrow> string option" where
  "extracted_marker lang = snd (try_patterns proficiency_patterns (strip (lower lang)))"

text \<open>The language name that \<open>process_batch\<close> emits for a candidate.\<close>

definition cleaned_name :: "string \<Rightarrow> string" where
  "cleaned_name lang = strip (fst (try_patterns proficiency_patterns (strip (lower lang))))"

text \<open>
  Step 4 as the specification words it: the normalized marker when a marker was
  extracted, the normalized \<open>proficiency\<close> field otherwise.
\<close>

definition spec_final_proficiency :: "lang_obj \<Rightarrow> string \<Rightarrow> exn + string option" where
  "spec_final_proficiency lang_obj lang =
     (case extracted_marker lang of
        Some marker \<Rightarrow> normalize_proficiency (PStr marker)
      | None \<Rightarrow> normalize_proficiency (get_proficiency lang_obj))"

text \<open>
  Step 4 as the code has it: the normalized marker when it is a level, the normalized
  \<open>proficiency\<close> field in every other case.
\<close>

definition level_or_field :: "lang_obj \<Rightarrow> string \<Rightarrow> exn + string option" where
  "level_or_field lang_obj lang =
     (case extracted_marker lang of
        Some marker \<Rightarrow>
          (case normalize_proficiency (PStr marker) of
             Inr (Some level) \<Rightarrow> Inr (Some level)
           | _ \<Rightarrow> normalize_proficiency (get_proficiency lang_obj))
      | None \<Rightarrow> normalize_proficiency (get_proficiency lang_obj))"

text \<open>Step 5 as the specification words it, with its three lists of synonyms.\<close>

definition spec_normalize :: "string \<Rightarrow> string option" where
  "spec_normalize token =
     (let t = strip (lower token) in
      if \<exists>d \<in> set ''12345''. t = [CHR ''a'', d] then Some (upper t)
      else if t \<in> set [''beginner'', ''basic'', ''elementary'', ''novice'', ''fundamental'']
        then Some ''Beginner''
      else if t \<in> set [''intermediate'', ''medium'', ''mid'', ''mid level'', ''mid-level'']
        then Some ''Intermediate''
      else if t \<in> set [''advanced'', ''advance'', ''expert'', ''fluent'', ''proficient'',
                         ''professional'']
        then Some ''Advanced''
      else None)"

text \<open>The canonical levels of the glossary.\<close>

definition canonical_levels :: "string list" where
  "canonical_levels =
     [''A1'', ''A2'', ''A3'', ''A4'', ''A5'', ''Beginner'', ''Intermediate'', ''Advanced'']"

text \<open>A stored proficiency that is null or one of the canonical levels.\<close>

definition canonical_or_null :: "pyval \<Rightarrow> bool" where
  "canonical_or_null v = (v = PNone \<or> (\<exists>p \<in> set canonical_levels. v = PStr p))"

text \<open>
  Step 3 with one occurrence removed, as the claim reads it: the span of the match that
  \<open>re.search\<close> reports is cut out of the candidate, and nothing else.
\<close>

definition remove_one :: "rx \<Rightarrow> string \<Rightarrow> string" where
  "remove_one r s =
     (case re_search r s of None \<Rightarrow> s | Some m \<Rightarrow> take (m_start m) s @ drop (m_end m) s)"

fun spec_try_patterns :: "rx list \<Rightarrow> string \<Rightarrow> string \<times> string option" where
  "spec_try_patterns [] language_str = (language_str, None)"
| "spec_try_patterns (pattern # rest) language_str =
     (case re_search (ignorecase pattern) language_str of
        Some m \<Rightarrow> (remove_one (ignorecase pattern) language_str, group1 m language_str)
      | None \<Rightarrow> spec_try_patterns rest language_str)"

text \<open>The least number of characters that a match of a pattern spans.\<close>

primrec min_len :: "rx \<Rightarrow> nat" where
  "min_len Eps = 0"
| "min_len (Chr c) = 1"
| "min_len (Cls p) = 1"
| "min_len (Seq a b) = min_len a + min_len b"
| "min_len (Alt a b) = min (min_len a) (min_len b)"
| "min_len (Opt a) = 0"
| "min_len (Star p) = 0"
| "min_len (Plus p) = 1"
| "min_len (LazyStar p) = 0"
| "min_len (Grp a) = min_len a"
| "min_len Bol = 0"
| "min_len Eol = 0"

text \<open>The first pattern of the list, in its order, that matches somewhere in the string.\<close>

definition first_matching :: "rx list \<Rightarrow> string \<Rightarrow> rx option" where
  "first_matching ps s = List.find (\<lambda>p. re_search (ignorecase p) s \<noteq> None) ps"

text \<open>
  The word \<open>and\<close> in lower case at position \<open>k + 1\<close> of a fragment, with a whitespace
  character before it and one after it.
\<close>

definition and_at :: "string \<Rightarrow> nat \<Rightarrow> bool" where
  "and_at s k = (k + 4 < length s \<and> isspace (s ! k) \<and> slice s (k + 1) (k + 4) = ''and'' \<and>
     isspace (s ! (k + 4)))"

text \<open>
  What the loop of \<open>process_skills_file\<close> computes: the key of a cleaned skill, and
  for a raw skill the key of its cleaned form and whether it is accepted.
\<close>

definition comparison_key :: "string \<Rightarrow> string" where
  "comparison_key cleaned_skill = normalize_for_comparison (PStr cleaned_skill)"

definition key_of :: "pyval \<Rightarrow> string" where
  "key_of skill = normalize_for_comparison (PStr (clean_skill_name skill))"

definition valid :: "pyval \<Rightarrow> bool" where
  "valid skill = is_valid_skill (clean_skill_name skill) (key_of skill)"

text \<open>
  The validity rule as the specification words it: the normalized form is not empty, does
  not consist only of digits, and has at least two characters.
\<close>

definition spec_valid :: "string \<Rightarrow> bool" where
  "spec_valid normalized = (normalized \<noteq> [] \<and> \<not> list_all isdecimal normalized \<and>
     2 \<le> length normalized)"



section \<open>Auxiliary facts\<close>

subsection \<open>Characters and strings\<close>

lemma cases_disjoint: "set uppercase \<inter> set lowercase = {}"
  by (simp add: uppercase_def lowercase_def)

lemma lower_chr_idem: "lower_chr (lower_chr c) = lower_chr c"
proof (cases "map_of (zip uppercase lowercase) c")
  case None
  then have "lower_chr c = c" by (simp add: lower_chr_def)
  then show ?thesis by simp
next
  case (Some l)
  then have "(c, l) \<in> set (zip uppercase lowercase)" by (rule map_of_SomeD)
  then have "l \<in> set lowercase" by (rule set_zip_rightD)
  with cases_disjoint have "l \<notin> set uppercase" by blast
  then have "l \<notin> fst ` set (zip uppercase lowercase)" by (auto dest: set_zip_leftD)
  then have "map_of (zip uppercase lowercase) l = None" by (simp add: map_of_eq_None_iff)
  then have "lower_chr l = l" by (simp add: lower_chr_def)
  moreover from Some have "lower_chr c = l" by (simp add: lower_chr_def)
  ultimately show ?thesis by simp
qed


lemma set_strip: "set (strip s) \<subseteq> set s"
proof
  fix x assume "x \<in> set (strip s)"
  then have "x \<in> set (dropWhile isspace (rev (dropWhile isspace s)))" by (simp add: strip_def)
  then have "x \<in> set (rev (dropWhile isspace s))" by (rule set_dropWhileD)
  then have "x \<in> set (dropWhile isspace s)" by simp
  then show "x \<in> set s" by (rule set_dropWhileD)
qed

lemma rstrip_keeps_head:
  assumes "\<not> P x"
  shows "\<exists>w. rev (dropWhile P (rev (x # u))) = x # w"
proof (cases "\<forall>y\<in>set (rev u). P y")
  case True
  then have "dropWhile P (rev u @ [x]) = dropWhile P [x]" by (intro dropWhile_append2) simp
  with assms show ?thesis by simp
next
  case False
  then obtain y where "y \<in> set (rev u)" "\<not> P y" by blast
  then have "dropWhile P (rev u @ [x]) = dropWhile P (rev u) @ [x]" by (rule dropWhile_append1)
  then show ?thesis by simp
qed

lemma strip_hd: 
  assumes ne: "strip s \<noteq> []" shows "\<not> isspace (hd (strip s))"
proof -
  have "dropWhile isspace s \<noteq> []"
  proof
    assume "dropWhile isspace s = []"
    then have "strip s = []" by (simp add: strip_def del: dropWhile_eq_Nil_conv)
    with ne show False by simp
  qed
  then obtain x u where xu: "dropWhile isspace s = x # u" by (cases "dropWhile isspace s") auto
  have "\<not> isspace (hd (dropWhile isspace s))" using \<open>dropWhile isspace s \<noteq> []\<close> by (rule hd_dropWhile)
  with xu have nx: "\<not> isspace x" by simp
  from rstrip_keeps_head[of isspace x u, OF nx] obtain w where "rev (dropWhile isspace (rev (x # u))) = x # w" by blast
  with xu have "strip s = x # w" unfolding strip_def by simp
  with nx show ?thesis by simp
qed

lemma strip_last: "strip s \<noteq> [] \<Longrightarrow> \<not> isspace (last (strip s))"
  by (simp add: strip_def last_rev hd_dropWhile)

lemma strip_idem: "strip (strip s) = strip s"
proof (cases "strip s = []")
  case True
  have "strip [] = []" by (simp add: strip_def)
  with True show ?thesis by simp
next
  case False
  then have h: "dropWhile isspace (strip s) = strip s"
    using strip_hd[of s] by (simp add: dropWhile_eq_self_iff)
  have "strip (strip s) = rev (dropWhile isspace (rev (dropWhile isspace (strip s))))"
    by (simp only: strip_def)
  also have "\<dots> = rev (dropWhile isspace (rev (strip s)))" by (simp only: h)
  also have "\<dots> = strip s" unfolding strip_def by simp
  finally show ?thesis .
qed

lemma set_re_sub_from: "set (re_sub_from r repl s i) \<subseteq> set s \<union> set repl"
proof (induction r repl s i rule: re_sub_from.induct)
  case (1 r repl s i)
  show ?case
  proof (cases "length s \<le> i")
    case True then show ?thesis by (subst re_sub_from.simps) simp
  next
    case False
    then have mem: "s ! i \<in> set s" by simp
    show ?thesis
    proof (cases "match_at r s i")
      case None
      with False 1(1) mem show ?thesis by (subst re_sub_from.simps) auto
    next
      case (Some m)
      with False 1(2,3) mem show ?thesis by (subst re_sub_from.simps) auto
    qed
  qed
qed

lemma set_re_sub: "set (re_sub r [] s) \<subseteq> set s"
  using set_re_sub_from[of r "[]" s 0] by (simp add: re_sub_def)


lemma a_level_match:
  "re_match a_level s \<noteq> None \<longleftrightarrow>
     (\<exists>d\<in>set ''12345''. s = [CHR ''a'', d] \<or> s = [CHR ''a'', d, CHR 0x0A])"
proof (cases s)
  case Nil then show ?thesis by (simp add: re_match_def match_at_def a_level_def)
next
  case (Cons x xs)
  show ?thesis
  proof (cases xs)
    case Nil with Cons show ?thesis by (simp add: re_match_def match_at_def a_level_def)
  next
    case (Cons y ys)
    note c2 = this
    show ?thesis
    proof (cases ys)
      case Nil with c2 \<open>s = x # xs\<close> show ?thesis 
        by (auto simp add: re_match_def match_at_def a_level_def split: list.splits if_splits)
    next
      case (Cons z zs)
      with c2 \<open>s = x # xs\<close> show ?thesis 
        by (cases zs) (auto simp add: re_match_def match_at_def a_level_def split: list.splits if_splits)
    qed
  qed
qed

lemma isspace_newline: "isspace (CHR 0x0A)"
  by (simp add: isspace_def whitespace_def)

lemma a_level_stripped:
  "re_match a_level (strip s) \<noteq> None \<longleftrightarrow> (\<exists>d\<in>set ''12345''. strip s = [CHR ''a'', d])"
proof -
  have "strip s \<noteq> [CHR ''a'', d, CHR 0x0A]" for d
    using strip_last[of s] isspace_newline by auto
  then show ?thesis by (simp add: a_level_match del: set_simps not_None_eq)
qed

lemma upper_a_level:
  assumes "d \<in> set ''12345''"
  shows "upper [CHR ''a'', d] = [CHR ''A'', d]"
proof -
  from assms consider "d = CHR ''1''" | "d = CHR ''2''" | "d = CHR ''3''" | "d = CHR ''4''"
    | "d = CHR ''5''" by auto
  then show ?thesis
  proof cases
    case 1 show ?thesis unfolding 1 by code_simp
  next
    case 2 show ?thesis unfolding 2 by code_simp
  next
    case 3 show ?thesis unfolding 3 by code_simp
  next
    case 4 show ?thesis unfolding 4 by code_simp
  next
    case 5 show ?thesis unfolding 5 by code_simp
  qed
qed

lemma normalize_str:
  "normalize_proficiency (PStr s) =
     Inr (if s = [] then None
          else if \<exists>d\<in>set ''12345''. strip (lower s) = [CHR ''a'', d] then Some (upper (strip (lower s)))
          else map_of proficiency_mapping (strip (lower s)))"
  by (simp add: Let_def a_level_stripped del: set_simps not_None_eq)

lemma mapping_range:
  "map_of proficiency_mapping k = Some p \<Longrightarrow> p \<in> {''Beginner'', ''Intermediate'', ''Advanced''}"
proof -
  assume "map_of proficiency_mapping k = Some p"
  then have "(k, p) \<in> set proficiency_mapping" by (rule map_of_SomeD)
  then have "p \<in> snd ` set proficiency_mapping" by force
  then show ?thesis by (simp add: proficiency_mapping_def)
qed

lemma normalize_range:
  assumes "normalize_proficiency v = Inr (Some p)"
  shows "p \<in> set canonical_levels"
proof (cases v)
  case PNone with assms show ?thesis by simp
next
  case (PNum n) with assms show ?thesis by (simp split: if_splits)
next
  case (PStr s)
  from assms have eq:
    "(if s = [] then None
      else if \<exists>d\<in>set ''12345''. strip (lower s) = [CHR ''a'', d] then Some (upper (strip (lower s)))
      else map_of proficiency_mapping (strip (lower s))) = Some p"
    unfolding PStr normalize_str by (simp only: sum.inject)
  show ?thesis
  proof (cases "\<exists>d\<in>set ''12345''. strip (lower s) = [CHR ''a'', d]")
    case True
    then obtain d where d: "d \<in> set ''12345''" "strip (lower s) = [CHR ''a'', d]" by blast
    from eq True have "p = upper (strip (lower s))"
      by (simp del: set_simps split: if_splits)
    with d have "p = [CHR ''A'', d]" by (simp add: upper_a_level del: set_simps)
    with d(1) show ?thesis by (auto simp: canonical_levels_def)
  next
    case False
    with eq have "map_of proficiency_mapping (strip (lower s)) = Some p"
      by (simp del: set_simps split: if_splits)
    then have "p \<in> {''Beginner'', ''Intermediate'', ''Advanced''}" by (rule mapping_range)
    then show ?thesis by (auto simp: canonical_levels_def)
  qed
qed

subsection \<open>Levels and candidates\<close>

lemma strip_Nil: "strip [] = []" by (simp add: strip_def)
lemma lower_Nil: "lower [] = []" by (simp add: lower_def)

lemma mapping_spec:
  "map_of proficiency_mapping t =
     (if t \<in> set [''beginner'', ''basic'', ''elementary'', ''novice'', ''fundamental'']
        then Some ''Beginner''
      else if t \<in> set [''intermediate'', ''medium'', ''mid'', ''mid level'', ''mid-level'']
        then Some ''Intermediate''
      else if t \<in> set [''advanced'', ''advance'', ''expert'', ''fluent'', ''proficient'',
                         ''professional'']
        then Some ''Advanced''
      else None)"
  by (simp add: proficiency_mapping_def)

lemma normalize_nonempty: "normalize_proficiency v = Inr (Some p) \<Longrightarrow> p \<noteq> []"
  using normalize_range[of v p] by (auto simp: canonical_levels_def)

lemma normalize_as_pyval: "\<exists>p. normalize_proficiency (as_pyval v) = Inr p"
  by (cases v) (simp_all add: as_pyval_def normalize_str del: normalize_proficiency.simps(3))

lemma process_lang_eq:
  "process_lang lang_obj lang =
     (if lang = [] then Inr []
      else (case level_or_field lang_obj lang of
              Inl e \<Rightarrow> Inl e
            | Inr final \<Rightarrow>
                Inr (if cleaned_name lang \<noteq> []
                     then [\<lparr>language = Some (PStr (cleaned_name lang)),
                            proficiency = Some (as_pyval final), others = []\<rparr>]
                     else [])))"
proof (cases "lang = []")
  case True then show ?thesis by (simp add: process_lang_def)
next
  case False
  obtain cl ex where tp: "try_patterns proficiency_patterns (strip (lower lang)) = (cl, ex)"
    by (cases "try_patterns proficiency_patterns (strip (lower lang))") auto
  obtain p where p: "normalize_proficiency (as_pyval ex) = Inr p"
    using normalize_as_pyval by blast
  have ext: "extract_proficiency_from_name lang = Inr (strip cl, p)"
    by (simp add: extract_proficiency_from_name_def tp p)
  have cn: "cleaned_name lang = strip cl" by (simp add: cleaned_name_def tp)
  have em: "extracted_marker lang = ex" by (simp add: extracted_marker_def tp)
  have fp: "final_proficiency lang_obj p = level_or_field lang_obj lang"
  proof (cases ex)
    case None
    with p have "p = None" by (simp add: as_pyval_def)
    with None em show ?thesis by (simp add: final_proficiency_def level_or_field_def)
  next
    case (Some marker)
    with p have pm: "normalize_proficiency (PStr marker) = Inr p" by (simp add: as_pyval_def)
    show ?thesis
    proof (cases p)
      case None
      with pm Some em show ?thesis by (simp add: final_proficiency_def level_or_field_def)
    next
      case (Some level)
      with pm have "level \<noteq> []" using normalize_nonempty by blast
      with Some pm \<open>ex = Some marker\<close> em show ?thesis
        by (simp add: final_proficiency_def level_or_field_def)
    qed
  qed
  show ?thesis using False
    by (simp add: process_lang_def ext fp cn strip_idem split: sum.splits)
qed

lemma process_doc_issued:
  assumes "languages d = Some current" and "cleaned_languages current = Inr cleaned"
  shows "issued (fst (process_doc d (c, u, e))) =
           (if cleaned = current then issued c else issued c @ [(doc_id d, cleaned)])"
    and "cleaned = current \<Longrightarrow> process_doc d (c, u, e) = (c, u, e)"
  using assms by (simp_all add: process_doc_def update_one_def)

subsection \<open>Emitted entries\<close>

lemma set_try_patterns: "set (fst (try_patterns ps s)) \<subseteq> set s"
proof (induction ps)
  case Nil show ?case by simp
next
  case (Cons p ps)
  show ?case
  proof (cases "re_search (ignorecase p) s")
    case None with Cons show ?thesis by simp
  next
    case (Some m) then show ?thesis by (simp add: set_re_sub)
  qed
qed

lemma lower_fixed: "c \<in> set (lower s) \<Longrightarrow> lower_chr c = c"
  by (auto simp: lower_def lower_chr_idem)

lemma cleaned_name_lower: "lower (cleaned_name lang) = cleaned_name lang"
proof -
  have "set (cleaned_name lang) \<subseteq> set (lower lang)"
    unfolding cleaned_name_def
    using set_strip[of "fst (try_patterns proficiency_patterns (strip (lower lang)))"]
      set_try_patterns[of proficiency_patterns "strip (lower lang)"] set_strip[of "lower lang"]
    by blast
  then have "\<forall>c\<in>set (cleaned_name lang). lower_chr c = c" using lower_fixed by blast
  then show ?thesis unfolding lower_def by (simp add: map_idI)
qed

lemma cleaned_name_strip: "strip (cleaned_name lang) = cleaned_name lang"
  by (simp add: cleaned_name_def strip_idem)

lemma level_or_field_range:
  assumes "level_or_field lang_obj lang = Inr f"
  shows "canonical_or_null (as_pyval f)"
proof (cases f)
  case None then show ?thesis by (simp add: canonical_or_null_def as_pyval_def)
next
  case (Some p)
  have "\<exists>v. normalize_proficiency v = Inr (Some p)"
    using assms Some
    by (auto simp: level_or_field_def simp del: normalize_proficiency.simps
          split: option.splits sum.splits)
  then have "p \<in> set canonical_levels" using normalize_range by blast
  with Some show ?thesis by (simp add: canonical_or_null_def as_pyval_def)
qed

lemma process_lang_entry:
  assumes "process_lang lang_obj lang = Inr es" and "e \<in> set es"
  shows "\<exists>n v. language e = Some (PStr n) \<and> n \<noteq> [] \<and> strip n = n \<and> lower n = n \<and>
           proficiency e = Some v \<and> canonical_or_null v \<and> others e = []"
proof -
  from assms have ne: "lang \<noteq> []" by (auto simp: process_lang_eq split: if_splits)
  with assms obtain f where f: "level_or_field lang_obj lang = Inr f"
    and es: "es = (if cleaned_name lang \<noteq> []
                   then [\<lparr>language = Some (PStr (cleaned_name lang)),
                          proficiency = Some (as_pyval f), others = []\<rparr>]
                   else [])"
    by (auto simp: process_lang_eq split: sum.splits)
  from es assms(2) have c: "cleaned_name lang \<noteq> []"
    and e: "e = \<lparr>language = Some (PStr (cleaned_name lang)),
                 proficiency = Some (as_pyval f), others = []\<rparr>"
    by (auto split: if_splits)
  show ?thesis
    using c e level_or_field_range[OF f] cleaned_name_strip cleaned_name_lower by simp
qed

lemma collect_entry:
  "collect f xs = Inr ys \<Longrightarrow> y \<in> set ys \<Longrightarrow> \<exists>x\<in>set xs. \<exists>zs. f x = Inr zs \<and> y \<in> set zs"
proof (induction xs arbitrary: ys)
  case Nil then show ?case by simp
next
  case (Cons x xs)
  from Cons.prems(1) obtain zs ws where fx: "f x = Inr zs" and cx: "collect f xs = Inr ws"
    and ys: "ys = zs @ ws"
    by (auto split: sum.splits)
  from Cons.prems(2) ys consider "y \<in> set zs" | "y \<in> set ws" by auto
  then show ?case
  proof cases
    case 1 with fx show ?thesis by auto
  next
    case 2 with Cons.IH[OF cx] show ?thesis by auto
  qed
qed

lemma process_lang_obj_entry:
  assumes "process_lang_obj lang_obj = Inr es" and "e \<in> set es"
  shows "\<exists>n v. language e = Some (PStr n) \<and> n \<noteq> [] \<and> strip n = n \<and> lower n = n \<and>
           proficiency e = Some v \<and> canonical_or_null v \<and> others e = []"
proof -
  from assms obtain s where "collect (process_lang lang_obj) (final_languages s) = Inr es"
    by (auto simp: process_lang_obj_def split: option.splits if_splits pyval.splits)
  from collect_entry[OF this assms(2)] obtain lang zs
    where "process_lang lang_obj lang = Inr zs" "e \<in> set zs" by blast
  then show ?thesis by (rule process_lang_entry)
qed

lemma cleaned_entry:
  assumes "cleaned_languages current = Inr cleaned" and "e \<in> set cleaned"
  shows "\<exists>n v. language e = Some (PStr n) \<and> n \<noteq> [] \<and> strip n = n \<and> lower n = n \<and>
           proficiency e = Some v \<and> canonical_or_null v \<and> others e = []"
proof -
  from collect_entry[OF assms[unfolded cleaned_languages_def]] obtain lo zs
    where "process_lang_obj lo = Inr zs" "e \<in> set zs" by blast
  then show ?thesis by (rule process_lang_obj_entry)
qed


subsection \<open>The loop over the skills\<close>

lemma key_of_comparison_key: "key_of x = comparison_key (clean_skill_name x)" by (simp add: key_of_def comparison_key_def)

lemma skills_loop_step:
  "skills_loop (x # xs) (m, cs) =
     (if valid x \<and> m (key_of x) = None
      then skills_loop xs (m(key_of x \<mapsto> clean_skill_name x), cs @ [clean_skill_name x])
      else skills_loop xs (m, cs))"
  by (simp add: valid_def key_of_def Let_def)

lemma skills_loop_inv:
  assumes "dom m = {key_of x |x. x \<in> set pre \<and> valid x}"
    and "distinct (map comparison_key cs)"
    and "set (map comparison_key cs) = dom m"
    and "\<forall>c\<in>set cs. \<exists>i<length pre. c = clean_skill_name (pre ! i) \<and> valid (pre ! i) \<and>
            (\<forall>j<i. valid (pre ! j) \<longrightarrow> key_of (pre ! j) \<noteq> key_of (pre ! i))"
    and "skills_loop xs (m, cs) = (m', cs')"
  shows "distinct (map comparison_key cs') \<and>
         set (map comparison_key cs') = {key_of x |x. x \<in> set (pre @ xs) \<and> valid x} \<and>
         (\<forall>c\<in>set cs'. \<exists>i<length (pre @ xs). c = clean_skill_name ((pre @ xs) ! i) \<and>
            valid ((pre @ xs) ! i) \<and>
            (\<forall>j<i. valid ((pre @ xs) ! j) \<longrightarrow> key_of ((pre @ xs) ! j) \<noteq> key_of ((pre @ xs) ! i)))"
  using assms
proof (induction xs arbitrary: pre m cs)
  case Nil
  then show ?case by simp
next
  case (Cons x xs)
  let ?k = "key_of x" and ?c = "clean_skill_name x"
  show ?case
  proof (cases "valid x \<and> m ?k = None")
    case True
    then have v: "valid x" and fresh: "m ?k = None" by auto
    have nokey: "key_of y \<noteq> ?k" if "y \<in> set pre" "valid y" for y
    proof -
      from that have "key_of y \<in> {key_of x |x. x \<in> set pre \<and> valid x}" by blast
      then have "key_of y \<in> dom m" by (simp only: Cons.prems(1))
      with fresh show ?thesis by auto
    qed
    have 1: "dom (m(?k \<mapsto> ?c)) = {key_of y |y. y \<in> set (pre @ [x]) \<and> valid y}"
      using Cons.prems(1) v by auto
    have knew: "?k \<notin> set (map comparison_key cs)" using Cons.prems(3) fresh by (auto simp: dom_def)
    have 2: "distinct (map comparison_key (cs @ [?c]))"
      using Cons.prems(2) knew by (simp add: key_of_comparison_key[symmetric])
    have 3: "set (map comparison_key (cs @ [?c])) = dom (m(?k \<mapsto> ?c))"
      using Cons.prems(3) by (simp add: key_of_comparison_key[symmetric])
    have 4: "\<forall>c\<in>set (cs @ [?c]). \<exists>i<length (pre @ [x]). c = clean_skill_name ((pre @ [x]) ! i) \<and>
            valid ((pre @ [x]) ! i) \<and>
            (\<forall>j<i. valid ((pre @ [x]) ! j) \<longrightarrow> key_of ((pre @ [x]) ! j) \<noteq> key_of ((pre @ [x]) ! i))"
    proof
      fix c assume "c \<in> set (cs @ [?c])"
      then consider "c \<in> set cs" | "c = ?c" by auto
      then show "\<exists>i<length (pre @ [x]). c = clean_skill_name ((pre @ [x]) ! i) \<and>
            valid ((pre @ [x]) ! i) \<and>
            (\<forall>j<i. valid ((pre @ [x]) ! j) \<longrightarrow> key_of ((pre @ [x]) ! j) \<noteq> key_of ((pre @ [x]) ! i))"
      proof cases
        case 1
        with Cons.prems(4) obtain i where i: "i < length pre" "c = clean_skill_name (pre ! i)"
          "valid (pre ! i)" "\<forall>j<i. valid (pre ! j) \<longrightarrow> key_of (pre ! j) \<noteq> key_of (pre ! i)"
          by blast
        then show ?thesis by (intro exI[of _ i]) (simp add: nth_append)
      next
        case 2
        show ?thesis
        proof (intro exI[of _ "length pre"] conjI allI impI)
          show "length pre < length (pre @ [x])" by simp
          show "c = clean_skill_name ((pre @ [x]) ! length pre)" using 2 by simp
          show "valid ((pre @ [x]) ! length pre)" using v by simp
          fix j assume "j < length pre" "valid ((pre @ [x]) ! j)"
          then show "key_of ((pre @ [x]) ! j) \<noteq> key_of ((pre @ [x]) ! length pre)"
            using nokey[of "pre ! j"] by (simp add: nth_append)
        qed
      qed
    qed
    from Cons.prems(5) True have 5: "skills_loop xs (m(?k \<mapsto> ?c), cs @ [?c]) = (m', cs')"
      by (simp add: skills_loop_step del: skills_loop.simps)
    from Cons.IH[OF 1 2 3 4 5] show ?thesis by simp
  next
    case False
    have 1: "dom m = {key_of y |y. y \<in> set (pre @ [x]) \<and> valid y}"
    proof (cases "valid x")
      case True
      with False have "?k \<in> dom m" by auto
      with Cons.prems(1) show ?thesis by auto
    next
      case False with Cons.prems(1) show ?thesis by auto
    qed
    have 4: "\<forall>c\<in>set cs. \<exists>i<length (pre @ [x]). c = clean_skill_name ((pre @ [x]) ! i) \<and>
            valid ((pre @ [x]) ! i) \<and>
            (\<forall>j<i. valid ((pre @ [x]) ! j) \<longrightarrow> key_of ((pre @ [x]) ! j) \<noteq> key_of ((pre @ [x]) ! i))"
    proof
      fix c assume "c \<in> set cs"
      with Cons.prems(4) obtain i where i: "i < length pre" "c = clean_skill_name (pre ! i)"
          "valid (pre ! i)" "\<forall>j<i. valid (pre ! j) \<longrightarrow> key_of (pre ! j) \<noteq> key_of (pre ! i)"
          by blast
      then show "\<exists>i<length (pre @ [x]). c = clean_skill_name ((pre @ [x]) ! i) \<and>
            valid ((pre @ [x]) ! i) \<and>
            (\<forall>j<i. valid ((pre @ [x]) ! j) \<longrightarrow> key_of ((pre @ [x]) ! j) \<noteq> key_of ((pre @ [x]) ! i))"
        by (intro exI[of _ i]) (simp add: nth_append)
    qed
    from Cons.prems(5) False have 5: "skills_loop xs (m, cs) = (m', cs')"
      by (simp add: skills_loop_step del: skills_loop.simps)
    from Cons.IH[OF 1 Cons.prems(2) Cons.prems(3) 4 5] show ?thesis by simp
  qed
qed

lemma sorted_skills_props:
  "sorted (sorted_skills skills) \<and>
   distinct (map comparison_key (sorted_skills skills)) \<and>
   set (map comparison_key (sorted_skills skills)) = {key_of x |x. x \<in> set skills \<and> valid x} \<and>
   (\<forall>c\<in>set (sorted_skills skills). \<exists>i<length skills. c = clean_skill_name (skills ! i) \<and>
       valid (skills ! i) \<and>
       (\<forall>j<i. valid (skills ! j) \<longrightarrow> key_of (skills ! j) \<noteq> key_of (skills ! i)))"
proof -
  obtain m' cs' where r: "skills_loop skills (Map.empty, []) = (m', cs')"
    by (cases "skills_loop skills (Map.empty, [])") auto
  have inv: "distinct (map comparison_key cs') \<and>
         set (map comparison_key cs') = {key_of x |x. x \<in> set ([] @ skills) \<and> valid x} \<and>
         (\<forall>c\<in>set cs'. \<exists>i<length ([] @ skills). c = clean_skill_name (([] @ skills) ! i) \<and>
            valid (([] @ skills) ! i) \<and>
            (\<forall>j<i. valid (([] @ skills) ! j) \<longrightarrow> key_of (([] @ skills) ! j) \<noteq> key_of (([] @ skills) ! i)))"
    by (rule skills_loop_inv[OF _ _ _ _ r]) simp_all
  have s: "sorted_skills skills = sort cs'" by (simp add: sorted_skills_def r)
  have d: "distinct (map comparison_key (sort cs'))"
    using inv by (simp add: distinct_map)
  show ?thesis unfolding s using inv d by simp
qed

subsection \<open>Matches, substitution and the first pattern\<close>

lemma rx_at_min_len: "m \<in> set (rx_at r s i) \<Longrightarrow> i + min_len r \<le> fst m"
proof (induction r arbitrary: i m)
  case (Seq a b)
  from Seq.prems obtain ma mb where ma: "ma \<in> set (rx_at a s i)"
    and mb: "mb \<in> set (rx_at b s (fst ma))" and m: "fst m = fst mb"
    by auto
  from Seq.IH(1)[OF ma] Seq.IH(2)[OF mb] m show ?case by simp
next
  case (Alt a b)
  then show ?case by (auto simp: min_def dest: Alt.IH(1) Alt.IH(2) split: if_splits)
next
  case (Opt a)
  then consider "m \<in> set (rx_at a s i)" | "m = (i, None)" by auto
  then show ?case
  proof cases
    case 1 from Opt.IH[OF 1] show ?thesis by simp
  next
    case 2 then show ?thesis by simp
  qed
next
  case (Grp a)
  then show ?case by auto
qed (auto split: if_splits)

lemma min_len_ignorecase: "min_len (ignorecase r) = min_len r"
  by (induction r) simp_all

lemma match_at_end:
  assumes "match_at r s i = Some m"
  shows "m_start m = i" and "i + min_len r \<le> m_end m"
proof -
  from assms obtain x xs where x: "rx_at r s i = x # xs"
    and m: "m = \<lparr>m_start = i, m_end = fst x, m_group1 = snd x\<rparr>"
    by (auto simp: match_at_def split: list.splits)
  from m show "m_start m = i" by simp
  from x have "x \<in> set (rx_at r s i)" by simp
  from rx_at_min_len[OF this] m show "i + min_len r \<le> m_end m" by simp
qed

lemma re_search_Some:
  assumes "re_search r s = Some m"
  shows "match_at r s (m_start m) = Some m \<and> (\<forall>k<m_start m. match_at r s k = None)"
proof -
  from assms obtain i where f: "List.find (\<lambda>i. match_at r s i \<noteq> None) [0..<Suc (length s)] = Some i"
    and mi: "match_at r s i = Some m"
    by (auto simp: re_search_def split: option.splits)
  from f obtain n where n: "n < length [0..<Suc (length s)]" "i = [0..<Suc (length s)] ! n"
    "\<forall>j<n. \<not> (match_at r s ([0..<Suc (length s)] ! j) \<noteq> None)"
    unfolding find_Some_iff by blast
  from n(1,2) have "i = n" by (metis add_0 length_upt minus_nat.diff_0 nth_upt)
  have "\<forall>k<i. match_at r s k = None"
  proof (intro allI impI)
    fix k assume "k < i"
    with \<open>i = n\<close> n(1) have "[0..<Suc (length s)] ! k = k" by (metis add_0 length_upt less_trans minus_nat.diff_0 nth_upt)
    with n(3) \<open>k < i\<close> \<open>i = n\<close> show "match_at r s k = None" by force
  qed
  with mi match_at_end(1)[OF mi] show ?thesis by simp
qed

lemma re_sub_from_skip:
  assumes "\<forall>k. j \<le> k \<and> k < i \<longrightarrow> match_at r s k = None" and "j \<le> i" and "i \<le> length s"
  shows "re_sub_from r repl s j = slice s j i @ re_sub_from r repl s i"
  using assms
proof (induction "i - j" arbitrary: j)
  case 0
  then show ?case by (simp add: slice_def)
next
  case (Suc d)
  then have lt: "j < i" and jl: "j < length s" by auto
  from Suc.prems(1) lt have none: "match_at r s j = None" by simp
  have step: "re_sub_from r repl s j = s ! j # re_sub_from r repl s (Suc j)"
    using jl none by (subst re_sub_from.simps) simp
  have "re_sub_from r repl s (Suc j) = slice s (Suc j) i @ re_sub_from r repl s i"
    using Suc.hyps(2) Suc.prems lt by (intro Suc.hyps(1)) auto
  moreover have "slice s j i = s ! j # slice s (Suc j) i"
  proof -
    from lt have d: "i - j = Suc (i - Suc j)" by simp
    from jl have "drop j s = s ! j # drop (Suc j) s" by (simp add: Cons_nth_drop_Suc)
    then show ?thesis unfolding slice_def d by simp
  qed
  ultimately show ?case using step by simp
qed

lemma re_sub_first:
  assumes "re_search r s = Some m" and "0 < min_len r"
  shows "re_sub r [] s = take (m_start m) s @ re_sub_from r [] s (m_end m)"
proof -
  let ?i = "m_start m"
  from re_search_Some[OF assms(1)] have mi: "match_at r s ?i = Some m"
    and none: "\<forall>k<?i. match_at r s k = None" by auto
  from match_at_end(2)[OF mi] assms(2) have lt: "?i < m_end m" by simp
  show ?thesis
  proof (cases "?i < length s")
    case True
    have "re_sub_from r [] s 0 = slice s 0 ?i @ re_sub_from r [] s ?i"
      using none True by (intro re_sub_from_skip) auto
    moreover have "re_sub_from r [] s ?i = re_sub_from r [] s (m_end m)"
      using True mi lt by (subst re_sub_from.simps) simp
    ultimately show ?thesis by (simp add: re_sub_def slice_def)
  next
    case False
    then have a: "take ?i s = s" by simp
    from False lt have b: "re_sub_from r [] s (m_end m) = []"
      by (subst re_sub_from.simps) simp
    have "\<forall>k. 0 \<le> k \<and> k < length s \<longrightarrow> match_at r s k = None" using none False by auto
    then have "re_sub_from r [] s 0 = slice s 0 (length s) @ re_sub_from r [] s (length s)"
      by (intro re_sub_from_skip) auto
    moreover have "re_sub_from r [] s (length s) = []" by (subst re_sub_from.simps) simp
    ultimately show ?thesis using a b by (simp add: re_sub_def slice_def)
  qed
qed

lemma try_patterns_first:
  "try_patterns ps s =
     (case first_matching ps s of
        None \<Rightarrow> (s, None)
      | Some p \<Rightarrow>
          (case re_search (ignorecase p) s of
             None \<Rightarrow> (s, None)
           | Some m \<Rightarrow> (re_sub (ignorecase p) [] s, group1 m s)))"
proof (induction ps)
  case Nil
  show ?case by (simp add: first_matching_def)
next
  case (Cons p ps)
  show ?case
  proof (cases "re_search (ignorecase p) s")
    case None
    with Cons show ?thesis by (simp add: first_matching_def)
  next
    case (Some m)
    then show ?thesis by (simp add: first_matching_def)
  qed
qed

lemma first_matching_mem: "first_matching ps s = Some p \<Longrightarrow> p \<in> set ps"
  by (auto simp: first_matching_def find_Some_iff)

lemma patterns_nonempty: "p \<in> set proficiency_patterns \<Longrightarrow> 0 < min_len p"
  by (auto simp: proficiency_patterns_def level_group_def)

subsection \<open>The split on the word and\<close>

lemma seq_nonempty:
  "rx_at (Seq a b) s i \<noteq> [] \<longleftrightarrow> (\<exists>m\<in>set (rx_at a s i). rx_at b s (fst m) \<noteq> [])"
  by (auto simp: concat_eq_Nil_conv)

lemma seq_ends:
  "fst ` set (rx_at (Seq a b) s i) = (\<Union>m\<in>set (rx_at a s i). fst ` set (rx_at b s (fst m)))"
  by (simp add: image_UN image_image)

lemma run_ge: "n \<le> run p s i \<longleftrightarrow> (\<forall>k<n. i + k < length s \<and> p (s ! (i + k)))"
proof -
  have *: "n \<le> length (takeWhile p xs) \<longleftrightarrow> (\<forall>k<n. k < length xs \<and> p (xs ! k))" for xs
  proof (induction xs arbitrary: n)
    case Nil then show ?case by auto
  next
    case (Cons x xs)
    show ?case
    proof (cases n)
      case 0 then show ?thesis by simp
    next
      case (Suc n')
      show ?thesis
      proof (cases "p x")
        case True
        have "(\<forall>k<Suc n'. k < length (x # xs) \<and> p ((x # xs) ! k)) \<longleftrightarrow>
              (\<forall>k<n'. k < length xs \<and> p (xs ! k))"
          using True by (auto simp: less_Suc_eq_0_disj)
        with True Suc Cons.IH[of n'] show ?thesis by simp
      next
        case False
        with Suc show ?thesis by auto
      qed
    qed
  qed
  show ?thesis unfolding run_def using *[of "drop i s"] by (auto simp: less_diff_conv add.commute)
qed

lemma plus_ends: "fst ` set (rx_at (Plus p) s i) = {i + n |n. 1 \<le> n \<and> n \<le> run p s i}"
  by (auto simp: image_iff) 

lemma plus_nonempty: "rx_at (Plus p) s i \<noteq> [] \<longleftrightarrow> i < length s \<and> p (s ! i)"
proof -
  have "rx_at (Plus p) s i \<noteq> [] \<longleftrightarrow> 1 \<le> run p s i" by auto
  also have "\<dots> \<longleftrightarrow> i < length s \<and> p (s ! i)" using run_ge[of 1 p s i] by simp
  finally show ?thesis .
qed

lemma and_tail:
  "rx_at (Seq (Lit ''and'') (Plus isspace)) s j \<noteq> [] \<longleftrightarrow>
     Suc (Suc (Suc j)) < length s \<and> s ! j = CHR ''a'' \<and> s ! Suc j = CHR ''n'' \<and>
     s ! Suc (Suc j) = CHR ''d'' \<and> isspace (s ! Suc (Suc (Suc j)))"
proof -
  have e: "fst ` set (rx_at (Lit ''and'') s j) =
      (if Suc (Suc j) < length s \<and> s ! j = CHR ''a'' \<and> s ! Suc j = CHR ''n'' \<and>
          s ! Suc (Suc j) = CHR ''d''
       then {Suc (Suc (Suc j))} else {})"
    by (auto simp: image_iff split: if_splits)
  have "rx_at (Seq (Lit ''and'') (Plus isspace)) s j \<noteq> [] \<longleftrightarrow>
      (\<exists>e\<in>fst ` set (rx_at (Lit ''and'') s j). rx_at (Plus isspace) s e \<noteq> [])"
    unfolding seq_nonempty by blast
  also have "\<dots> \<longleftrightarrow> Suc (Suc (Suc j)) < length s \<and> s ! j = CHR ''a'' \<and> s ! Suc j = CHR ''n'' \<and>
      s ! Suc (Suc j) = CHR ''d'' \<and> isspace (s ! Suc (Suc (Suc j)))"
    unfolding e plus_nonempty by auto
  finally show ?thesis .
qed

lemma and_pattern_match:
  "rx_at and_pattern s i \<noteq> [] \<longleftrightarrow>
     (\<exists>n. 1 \<le> n \<and> n \<le> run isspace s i \<and>
        rx_at (Seq (Lit ''and'') (Plus isspace)) s (i + n) \<noteq> [])"
proof -
  have "rx_at and_pattern s i \<noteq> [] \<longleftrightarrow>
      (\<exists>e\<in>fst ` set (rx_at (Plus isspace) s i). rx_at (Seq (Lit ''and'') (Plus isspace)) s e \<noteq> [])"
    unfolding and_pattern_def seq_nonempty[of "Plus isspace"] by blast
  also have "\<dots> \<longleftrightarrow> (\<exists>n. 1 \<le> n \<and> n \<le> run isspace s i \<and>
        rx_at (Seq (Lit ''and'') (Plus isspace)) s (i + n) \<noteq> [])"
    unfolding plus_ends by blast
  finally show ?thesis .
qed

lemma take3:
  "take 3 (drop j (s::string)) = [a, b, c] \<longleftrightarrow>
     Suc (Suc j) < length s \<and> s ! j = a \<and> s ! Suc j = b \<and> s ! Suc (Suc j) = c"
proof -
  have "take 3 xs = [a, b, c] \<longleftrightarrow> 2 < length xs \<and> xs ! 0 = a \<and> xs ! 1 = b \<and> xs ! 2 = c" for xs :: string
  proof (cases xs)
    case Nil then show ?thesis by simp
  next
    case (Cons x1 r1)
    then show ?thesis
    proof (cases r1)
      case Nil with Cons show ?thesis by simp
    next
      case c2: (Cons x2 r2)
      with Cons show ?thesis by (cases r2) (auto simp: numeral_3_eq_3 numeral_2_eq_2)
    qed
  qed
  from this[of "drop j s"] show ?thesis
    by (auto simp: less_diff_conv add.commute numeral_2_eq_2)
qed

lemma and_at_iff:
  "and_at s k \<longleftrightarrow> Suc (Suc (Suc (Suc k))) < length s \<and> isspace (s ! k) \<and> s ! Suc k = CHR ''a'' \<and>
     s ! Suc (Suc k) = CHR ''n'' \<and> s ! Suc (Suc (Suc k)) = CHR ''d'' \<and>
     isspace (s ! Suc (Suc (Suc (Suc k))))"
proof -
  have a: "slice s (k + 1) (k + 4) = take 3 (drop (Suc k) s)" by (simp add: slice_def)
  have b: "k + 4 = Suc (Suc (Suc (Suc k)))" by simp
  have "and_at s k \<longleftrightarrow> (k + 4 < length s \<and> isspace (s ! k) \<and>
      take 3 (drop (Suc k) s) = ''and'' \<and> isspace (s ! (k + 4)))"
    by (simp only: and_at_def a)
  also have "\<dots> \<longleftrightarrow> Suc (Suc (Suc (Suc k))) < length s \<and> isspace (s ! k) \<and> s ! Suc k = CHR ''a'' \<and>
     s ! Suc (Suc k) = CHR ''n'' \<and> s ! Suc (Suc (Suc k)) = CHR ''d'' \<and>
     isspace (s ! Suc (Suc (Suc (Suc k))))"
    unfolding b take3 by auto
  finally show ?thesis .
qed

lemma and_at_match: "and_at s k \<Longrightarrow> rx_at and_pattern s k \<noteq> []"
proof -
  assume "and_at s k"
  then have k: "Suc (Suc (Suc (Suc k))) < length s" "isspace (s ! k)" "s ! Suc k = CHR ''a''"
     "s ! Suc (Suc k) = CHR ''n''" "s ! Suc (Suc (Suc k)) = CHR ''d''"
     "isspace (s ! Suc (Suc (Suc (Suc k))))"
    unfolding and_at_iff by blast+
  have "1 \<le> run isspace s k" using k(1,2) run_ge[of 1 isspace s k] by simp
  moreover have "rx_at (Seq (Lit ''and'') (Plus isspace)) s (k + 1) \<noteq> []"
    unfolding and_tail using k by simp
  ultimately show ?thesis unfolding and_pattern_match by blast
qed

lemma some_match_iff_and_at:
  "(\<exists>i. rx_at and_pattern s i \<noteq> []) \<longleftrightarrow> (\<exists>k. and_at s k)"
proof
  assume "\<exists>i. rx_at and_pattern s i \<noteq> []"
  then obtain i n where n: "1 \<le> n" "n \<le> run isspace s i"
    "rx_at (Seq (Lit ''and'') (Plus isspace)) s (i + n) \<noteq> []"
    unfolding and_pattern_match by blast
  from n(1) obtain n' where n': "n = Suc n'" by (cases n) auto
  from n(2) have "\<forall>k<n. i + k < length s \<and> isspace (s ! (i + k))" by (simp add: run_ge)
  with n' have "isspace (s ! (i + n'))" by simp
  with n(3) n' have "and_at s (i + n')" unfolding and_at_iff and_tail by simp
  then show "\<exists>k. and_at s k" ..
next
  assume "\<exists>k. and_at s k"
  then show "\<exists>i. rx_at and_pattern s i \<noteq> []" using and_at_match by blast
qed

lemma match_at_None: "match_at r s i = None \<longleftrightarrow> rx_at r s i = []"
  by (simp add: match_at_def split: list.splits)

lemma re_split_from_nonempty: "re_split_from r s start i \<noteq> []"
proof (induction r s start i rule: re_split_from.induct)
  case (1 r s start i)
  show ?case
  proof (cases "length s \<le> i")
    case True then show ?thesis by (subst re_split_from.simps) simp
  next
    case False
    show ?thesis
    proof (cases "match_at r s i")
      case None with False 1(1) show ?thesis by (subst re_split_from.simps) simp
    next
      case (Some m) with False 1(3) show ?thesis by (subst re_split_from.simps) simp
    qed
  qed
qed

lemma re_split_from_single:
  "\<forall>j. i \<le> j \<and> j < length s \<longrightarrow> match_at r s j = None \<Longrightarrow>
     re_split_from r s start i = [slice s start (length s)]"
proof (induction r s start i rule: re_split_from.induct)
  case (1 r s start i)
  show ?case
  proof (cases "length s \<le> i")
    case True then show ?thesis by (subst re_split_from.simps) simp
  next
    case False
    with 1(4) have none: "match_at r s i = None" by simp
    have "re_split_from r s start (Suc i) = [slice s start (length s)]"
      using False none 1(4) by (intro 1(1)) auto
    with False none show ?thesis by (subst re_split_from.simps) simp
  qed
qed

lemma re_split_from_many:
  "i \<le> j \<Longrightarrow> j < length s \<Longrightarrow> match_at r s j \<noteq> None \<Longrightarrow> 0 < min_len r \<Longrightarrow>
     1 < length (re_split_from r s start i)"
proof (induction r s start i rule: re_split_from.induct)
  case (1 r s start i)
  from 1(4,5) have il: "\<not> length s \<le> i" by simp
  show ?case
  proof (cases "match_at r s i")
    case None
    with 1(6) have "i \<noteq> j" by auto
    with 1(4) have "Suc i \<le> j" by simp
    from 1(1)[OF il None this 1(5) 1(6) 1(7)] il None show ?thesis
      by (subst re_split_from.simps) simp
  next
    case (Some m)
    from match_at_end(2)[OF Some] 1(7) have "i < m_end m" by simp
    with il Some re_split_from_nonempty[of r s "m_end m" "m_end m"] show ?thesis
      by (subst re_split_from.simps) (cases "re_split_from r s (m_end m) (m_end m)", auto)
  qed
qed

subsection \<open>Runs and records that do not raise\<close>






lemma clean_languages_returns:
  assumes "connect_error st = None"
  shows "\<exists>res st'. clean_languages st batch_size = (Inr res, st') \<and> closed st'"
  using assms by (auto simp: clean_languages_def split: prod.splits sum.splits)

subsection \<open>The validity rule\<close>

lemma re_sub_plus_set:
  "r = Plus p \<Longrightarrow> set (re_sub_from r repl s i) \<subseteq> {c \<in> set s. \<not> p c} \<union> set repl"
proof (induction r repl s i rule: re_sub_from.induct)
  case (1 r repl s i)
  show ?case
  proof (cases "length s \<le> i")
    case True then show ?thesis by (subst re_sub_from.simps) simp
  next
    case False
    then have mem: "s ! i \<in> set s" by simp
    show ?thesis
    proof (cases "match_at r s i")
      case None
      then have "rx_at (Plus p) s i = []" using 1(4) by (simp add: match_at_None)
      with False have "\<not> p (s ! i)" using plus_nonempty[of p s i] by simp
      with None False 1(1)[OF False None 1(4)] mem show ?thesis
        by (subst re_sub_from.simps) auto
    next
      case (Some m)
      from match_at_end(2)[OF Some] 1(4) have lt: "i < m_end m" by simp
      with Some False 1(2)[OF False Some lt 1(4)] show ?thesis
        by (subst re_sub_from.simps) auto
    qed
  qed
qed

lemma table_no_newline: "row \<in> set nfkd_ascii_table \<Longrightarrow> CHR 0x0A \<notin> set (snd row)"
  by (auto simp: nfkd_ascii_table_def)

lemma nfkd_newline: "CHR 0x0A \<in> set (nfkd_ascii c) \<Longrightarrow> c = CHR 0x0A"
proof (cases "digit7 c")
  case False
  assume "CHR 0x0A \<in> set (nfkd_ascii c)"
  with False show ?thesis by (simp add: nfkd_ascii_def)
next
  case True
  assume a: "CHR 0x0A \<in> set (nfkd_ascii c)"
  show ?thesis
  proof (cases "List.find (\<lambda>row. c \<in> set (fst row)) nfkd_ascii_table")
    case None with True a show ?thesis by (simp add: nfkd_ascii_def)
  next
    case (Some row)
    then have "row \<in> set nfkd_ascii_table" by (auto simp: find_Some_iff)
    from table_no_newline[OF this] Some True a show ?thesis by (simp add: nfkd_ascii_def)
  qed
qed

lemma key_no_newline: "CHR 0x0A \<notin> set (comparison_key c)"
proof
  let ?u = "re_sub (Cls (\<lambda>c. \<not> (isword c \<or> isspace c))) [] (lower c)"
  assume "CHR 0x0A \<in> set (comparison_key c)"
  then obtain x where x: "x \<in> set (strip (re_sub (Plus isspace) '' '' ?u))"
    and "CHR 0x0A \<in> set (nfkd_ascii x)"
    by (auto simp: comparison_key_def ascii_fold_def)
  then have "x = CHR 0x0A" using nfkd_newline by blast
  with x set_strip have "CHR 0x0A \<in> set (re_sub (Plus isspace) '' '' ?u)" by blast
  then have "CHR 0x0A \<in> {c \<in> set ?u. \<not> isspace c} \<union> set '' ''"
    using re_sub_plus_set[of "Plus isspace" isspace "'' ''" ?u 0] by (auto simp: re_sub_def)
  then show False using isspace_newline by auto
qed

lemma digits_match:
  assumes "CHR 0x0A \<notin> set k"
  shows "re_match (Seq Bol (Seq (Plus isdecimal) Eol)) k \<noteq> None \<longleftrightarrow> k \<noteq> [] \<and> list_all isdecimal k"
proof -
  have eol: "rx_at Eol k n \<noteq> [] \<longleftrightarrow> n = length k" for n
    using assms by (auto simp: in_set_conv_nth)
  have "re_match (Seq Bol (Seq (Plus isdecimal) Eol)) k \<noteq> None \<longleftrightarrow>
        rx_at (Seq (Plus isdecimal) Eol) k 0 \<noteq> []"
    unfolding re_match_def match_at_None seq_nonempty[of Bol] by simp
  also have "\<dots> \<longleftrightarrow> (\<exists>e\<in>fst ` set (rx_at (Plus isdecimal) k 0). rx_at Eol k e \<noteq> [])"
    unfolding seq_nonempty by blast
  also have "\<dots> \<longleftrightarrow> (\<exists>n. 1 \<le> n \<and> n \<le> run isdecimal k 0 \<and> n = length k)"
    unfolding plus_ends eol by auto
  also have "\<dots> \<longleftrightarrow> k \<noteq> [] \<and> list_all isdecimal k"
    unfolding run_ge by (auto simp: list_all_length Suc_le_eq)
  finally show ?thesis .
qed

lemma is_valid_skill_spec:
  "CHR 0x0A \<notin> set k \<Longrightarrow> is_valid_skill c k = spec_valid k"
  by (simp add: is_valid_skill_def spec_valid_def digits_match del: not_None_eq)

lemma valid_spec: "valid x = spec_valid (key_of x)"
  unfolding valid_def
  by (rule is_valid_skill_spec) (simp add: key_of_comparison_key key_no_newline)

section \<open>Results\<close>

subsection \<open>The run as a whole\<close>

text \<open>
  C2. \<open>clean_languages\<close> is meant to return a result in every case and to close the
  client in every case. When the constructor of the client raises, the run lets an
  \<open>UnboundLocalError\<close> out instead of returning the \<open>failed\<close> result, and nothing is
  closed: the store is left as it was. (When the constructor succeeds a result is
  returned and the client is closed, see \<open>clean_languages_returns\<close>.)
\<close>

theorem clean_languages_unbound_client:
  "connect_error st = Some e \<Longrightarrow> clean_languages st batch_size = (Inl UnboundLocalError, st)"
  by (simp add: clean_languages_def)

theorem clean_languages_unbound_client_witness:
  "clean_languages
     \<lparr>connect_error = Some StoreError, count_result = Inr 0, found = [], cursor_error = None,
      coll = \<lparr>issued = [], refused = []\<rparr>, closed = False\<rparr> 100
   = (Inl UnboundLocalError,
     \<lparr>connect_error = Some StoreError, count_result = Inr 0, found = [], cursor_error = None,
      coll = \<lparr>issued = [], refused = []\<rparr>, closed = False\<rparr>)"
  using clean_languages_unbound_client
    [of "\<lparr>connect_error = Some StoreError, count_result = Inr 0, found = [],
          cursor_error = None, coll = \<lparr>issued = [], refused = []\<rparr>, closed = False\<rparr>"
        StoreError 100]
  by simp

subsection \<open>The comparison key of a skill\<close>

text \<open>
  C6. The key is said to keep only alphanumeric and whitespace characters, so that an
  underscore is stripped. The class \<open>\\w\<close> contains the underscore, and the key of
  \<open>a_b\<close> is \<open>a_b\<close>.
\<close>

theorem underscore_kept:
  "normalize_for_comparison (PStr ''a_b'') = ''a_b''"
  by code_simp

theorem underscore_kept_witness:
  "CHR ''_'' \<in> set (normalize_for_comparison (PStr ''a_b''))"
  using underscore_kept by simp

subsection \<open>Proficiency levels\<close>

text \<open>
  C9. For every raw token, \<open>normalize_proficiency\<close> returns a value and never raises;
  the value is the one the specification describes: the token is put in lower case and
  trimmed, the letter \<open>a\<close> followed by a digit from 1 to 5 comes back in upper case,
  a synonym gives its canonical word, and every other token gives no value.
\<close>

theorem normalize_proficiency_matches_spec:
  "normalize_proficiency (PStr token) = Inr (spec_normalize token)"
proof (cases "token = []")
  case True
  have "map_of proficiency_mapping [] = None" by (simp add: proficiency_mapping_def)
  moreover have "\<not> (\<exists>d\<in>set ''12345''. ([]::string) = [CHR ''a'', d])" by simp
  ultimately have "spec_normalize [] = None"
    unfolding spec_normalize_def Let_def strip_Nil lower_Nil mapping_spec[symmetric] by (simp del: set_simps)
  with True show ?thesis by simp
next
  case False
  then show ?thesis
    unfolding spec_normalize_def Let_def mapping_spec[symmetric] normalize_str by (simp del: set_simps)
qed

theorem normalize_proficiency_matches_spec_witness:
  "normalize_proficiency (PStr ''a3'') = Inr (Some ''A3'') \<and>
   normalize_proficiency (PStr ''fluent'') = Inr (Some ''Advanced'') \<and>
   normalize_proficiency (PStr ''a7'') = Inr None \<and>
   normalize_proficiency (PStr ''b2'') = Inr None"
proof -
  have "spec_normalize ''a3'' = Some ''A3''" by code_simp
  moreover have "spec_normalize ''fluent'' = Some ''Advanced''" by code_simp
  moreover have "spec_normalize ''a7'' = None" by code_simp
  moreover have "spec_normalize ''b2'' = None" by code_simp
  ultimately show ?thesis
    using normalize_proficiency_matches_spec [of "''a3''"]
      normalize_proficiency_matches_spec [of "''fluent''"]
      normalize_proficiency_matches_spec [of "''a7''"]
      normalize_proficiency_matches_spec [of "''b2''"]
    by (simp only:) 
qed

text \<open>
  C1. The claim: when a marker was extracted, the emitted proficiency is the
  normalization of the marker, and the \<open>proficiency\<close> field is used only when no marker
  was extracted. For the candidate \<open>french (b2)\<close> of an entry whose field is \<open>fluent\<close>
  the marker \<open>b2\<close> is extracted and normalizes to no value, and the emitted
  proficiency is \<open>Advanced\<close>, taken from the field.
\<close>

theorem unrecognized_marker_falls_back:
  "extracted_marker ''french (b2)'' = Some ''b2'' \<and>
   spec_final_proficiency
     \<lparr>language = Some (PStr ''french (b2)''), proficiency = Some (PStr ''fluent''), others = []\<rparr>
     ''french (b2)'' = Inr None \<and>
   process_lang
     \<lparr>language = Some (PStr ''french (b2)''), proficiency = Some (PStr ''fluent''), others = []\<rparr>
     ''french (b2)''
     = Inr [\<lparr>language = Some (PStr ''french''), proficiency = Some (PStr ''Advanced''),
             others = []\<rparr>]"
  by code_simp

text \<open>
  C1, amended. For every entry and every candidate, the emitted proficiency is the
  normalized marker when a marker was extracted and normalizes to a level; in every other
  case, no marker or a marker that is not recognized, it is the normalization of the
  entry's \<open>proficiency\<close> field.
\<close>

theorem emitted_proficiency_is_level_or_field:
  "process_lang lang_obj lang =
     (if lang = [] then Inr []
      else (case level_or_field lang_obj lang of
              Inl e \<Rightarrow> Inl e
            | Inr final \<Rightarrow>
                Inr (if cleaned_name lang \<noteq> []
                     then [\<lparr>language = Some (PStr (cleaned_name lang)),
                            proficiency = Some (as_pyval final), others = []\<rparr>]
                     else [])))"
  by (rule process_lang_eq)

theorem emitted_proficiency_is_level_or_field_witness:
  "process_lang
     \<lparr>language = Some (PStr ''Spanish - advanced''), proficiency = Some (PStr ''basic''), others = []\<rparr>
     ''Spanish - advanced''
     = Inr [\<lparr>language = Some (PStr ''spanish''), proficiency = Some (PStr ''Advanced''),
             others = []\<rparr>]"
proof -
  have "level_or_field
     \<lparr>language = Some (PStr ''Spanish - advanced''), proficiency = Some (PStr ''basic''), others = []\<rparr>
     ''Spanish - advanced'' = Inr (Some ''Advanced'')"
    by code_simp
  moreover have "cleaned_name ''Spanish - advanced'' = ''spanish''" by code_simp
  ultimately show ?thesis
    using emitted_proficiency_is_level_or_field
      [of "\<lparr>language = Some (PStr ''Spanish - advanced''), proficiency = Some (PStr ''basic''),
            others = []\<rparr>" "''Spanish - advanced''"]
    by (simp add: as_pyval_def)
qed

subsection \<open>Writing back\<close>

text \<open>
  C8. For every record whose entries are processed without an exception: when the
  normalized sequence equals the original \<open>languages\<close> array, nothing is issued and the
  collection and the counters are as before; when it differs, exactly one update is
  issued, for this record, carrying the whole normalized sequence.
\<close>

theorem process_doc_writes_iff_changed:
  assumes "languages d = Some current" and "cleaned_languages current = Inr cleaned"
  shows "issued (fst (process_doc d (c, u, e))) =
           (if cleaned = current then issued c else issued c @ [(doc_id d, cleaned)])
         \<and> (cleaned = current \<longrightarrow> process_doc d (c, u, e) = (c, u, e))"
  using process_doc_issued [OF assms] by simp

theorem process_doc_writes_iff_changed_witness:
  "issued (fst (process_doc
       \<lparr>doc_id = 7, languages = Some [\<lparr>language = Some (PStr ''English''),
                                       proficiency = Some PNone, others = []\<rparr>]\<rparr>
       (\<lparr>issued = [], refused = []\<rparr>, 0, 0)))
     = [(7, [\<lparr>language = Some (PStr ''english''), proficiency = Some PNone, others = []\<rparr>])]
   \<and> process_doc
       \<lparr>doc_id = 8, languages = Some [\<lparr>language = Some (PStr ''english''),
                                       proficiency = Some PNone, others = []\<rparr>]\<rparr>
       (\<lparr>issued = [], refused = []\<rparr>, 0, 0)
     = (\<lparr>issued = [], refused = []\<rparr>, 0, 0)"
proof -
  have a: "cleaned_languages [\<lparr>language = Some (PStr ''English''), proficiency = Some PNone,
              others = []\<rparr>]
        = Inr [\<lparr>language = Some (PStr ''english''), proficiency = Some PNone, others = []\<rparr>]"
    by code_simp
  have b: "cleaned_languages [\<lparr>language = Some (PStr ''english''), proficiency = Some PNone,
              others = []\<rparr>]
        = Inr [\<lparr>language = Some (PStr ''english''), proficiency = Some PNone, others = []\<rparr>]"
    by code_simp
  have ne: "''english'' \<noteq> ''English''" by simp
  show ?thesis
    using process_doc_writes_iff_changed [OF _ a, of
        "\<lparr>doc_id = 7, languages = Some [\<lparr>language = Some (PStr ''English''),
                                       proficiency = Some PNone, others = []\<rparr>]\<rparr>"
        "\<lparr>issued = [], refused = []\<rparr>" 0 0]
      process_doc_writes_iff_changed [OF _ b, of
        "\<lparr>doc_id = 8, languages = Some [\<lparr>language = Some (PStr ''english''),
                                       proficiency = Some PNone, others = []\<rparr>]\<rparr>"
        "\<lparr>issued = [], refused = []\<rparr>" 0 0]
    by (simp add: ne)
qed

subsection \<open>The emitted entries\<close>

text \<open>
  C5. The claim: no emitted language name still matches one of the four extraction
  patterns. The entry \<open>french basic basic\<close> is emitted as \<open>french basic\<close> with
  proficiency \<open>Beginner\<close>, and a marker can still be extracted from that name: only the
  first matching pattern is applied, once.
\<close>

theorem emitted_name_keeps_marker:
  "cleaned_languages
     [\<lparr>language = Some (PStr ''french basic basic''), proficiency = None, others = []\<rparr>]
     = Inr [\<lparr>language = Some (PStr ''french basic''), proficiency = Some (PStr ''Beginner''),
             others = []\<rparr>] \<and>
   extracted_marker ''french basic'' = Some ''basic''"
  by code_simp

text \<open>
  C5, amended. Every entry emitted by the language normalization has a language name
  that is a non-empty trimmed string, a proficiency that is null or one of the canonical
  values A1 to A5, Beginner, Intermediate, Advanced, and no other key. (The name can
  still contain a proficiency marker.)
\<close>

theorem emitted_entries_normal:
  assumes "cleaned_languages current = Inr cleaned" and "e \<in> set cleaned"
  shows "(\<exists>n. language e = Some (PStr n) \<and> n \<noteq> [] \<and> strip n = n) \<and>
         (\<exists>v. proficiency e = Some v \<and> canonical_or_null v) \<and> others e = []"
  using cleaned_entry [OF assms] by blast

theorem emitted_entries_normal_witness:
  "(\<exists>n. language \<lparr>language = Some (PStr ''hindi''), proficiency = Some (PStr ''A2''), others = []\<rparr>
        = Some (PStr n) \<and> n \<noteq> [] \<and> strip n = n) \<and>
   (\<exists>v. proficiency \<lparr>language = Some (PStr ''hindi''), proficiency = Some (PStr ''A2''), others = []\<rparr>
        = Some v \<and> canonical_or_null v)"
proof -
  have a: "cleaned_languages
      [\<lparr>language = Some (PStr ''Hindi (a2)''), proficiency = None, others = []\<rparr>]
      = Inr [\<lparr>language = Some (PStr ''hindi''), proficiency = Some (PStr ''A2''), others = []\<rparr>]"
    by code_simp
  have b: "\<lparr>language = Some (PStr ''hindi''), proficiency = Some (PStr ''A2''), others = []\<rparr>
      \<in> set [\<lparr>language = Some (PStr ''hindi''), proficiency = Some (PStr ''A2''), others = []\<rparr>]"
    by simp
  from emitted_entries_normal [OF a b] show ?thesis by blast
qed




subsection \<open>The list of unique skills\<close>

text \<open>
  C7. For every column of raw skills, the list that is written is sorted in ascending
  order of the cleaned strings; no two of its entries have the same comparison key; the
  keys of its entries are exactly the keys of the valid cleaned skills of the input; each
  entry is the cleaned form of the first valid input with its key; and a skill is valid
  exactly when its normalized form is not empty, not made of digits only, and at least
  two characters long.
\<close>

theorem unique_skills_sorted:
  "sorted (sorted_skills skills) \<and>
   distinct (map comparison_key (sorted_skills skills)) \<and>
   set (map comparison_key (sorted_skills skills)) = {key_of x |x. x \<in> set skills \<and> valid x} \<and>
   (\<forall>c \<in> set (sorted_skills skills). \<exists>i < length skills.
       c = clean_skill_name (skills ! i) \<and> valid (skills ! i) \<and>
       (\<forall>j < i. valid (skills ! j) \<longrightarrow> key_of (skills ! j) \<noteq> key_of (skills ! i))) \<and>
   (\<forall>x. valid x = spec_valid (key_of x))"
proof (intro conjI allI)
  show "valid x = spec_valid (key_of x)" for x by (rule valid_spec)
qed (use sorted_skills_props [of skills] in blast)+

theorem unique_skills_sorted_witness:
  "sorted_skills [PStr ''- ml'', PStr ''ML!'', PStr ''7'', PNone, PStr ''Go''] = [''Go'', ''ml''] \<and>
   sorted (sorted_skills [PStr ''- ml'', PStr ''ML!'', PStr ''7'', PNone, PStr ''Go'']) \<and>
   distinct (map comparison_key
     (sorted_skills [PStr ''- ml'', PStr ''ML!'', PStr ''7'', PNone, PStr ''Go'']))"
proof -
  have "sorted_skills [PStr ''- ml'', PStr ''ML!'', PStr ''7'', PNone, PStr ''Go'']
      = [''Go'', ''ml'']"
    by code_simp
  then show ?thesis
    using unique_skills_sorted [of "[PStr ''- ml'', PStr ''ML!'', PStr ''7'', PNone, PStr ''Go'']"]
    by (simp only:) 
qed

subsection \<open>Extraction and splitting\<close>

text \<open>
  C4. The claim: exactly the matched substring, one occurrence, is removed from the
  candidate. For \<open>a (b) (c)\<close> the parenthetical pattern is the first that matches; the
  emitted name is \<open>a\<close>, both parentheses gone, where the removal of the one matched
  substring would leave \<open>a  (c)\<close>.
\<close>

theorem every_occurrence_removed:
  "cleaned_name ''a (b) (c)'' = ''a'' \<and>
   strip (fst (spec_try_patterns proficiency_patterns (strip (lower ''a (b) (c)'')))) = ''a  (c)''"
  by code_simp

text \<open>
  C4, amended. The four patterns are tried in the order parenthetical, hyphen, comma,
  trailing word, and only the first one that matches is applied. The marker is group 1
  of its leftmost match. The cleaned name is the text before that match followed by the
  rest of the candidate with every further match of the same pattern removed as well.
\<close>

theorem first_pattern_every_match_removed:
  "try_patterns proficiency_patterns s =
     (case first_matching proficiency_patterns s of
        None \<Rightarrow> (s, None)
      | Some p \<Rightarrow>
          (case re_search (ignorecase p) s of
             None \<Rightarrow> (s, None)
           | Some m \<Rightarrow>
               (take (m_start m) s @ re_sub_from (ignorecase p) [] s (m_end m), group1 m s)))"
proof (cases "first_matching proficiency_patterns s")
  case None
  then show ?thesis by (simp add: try_patterns_first)
next
  case (Some p)
  then have pos: "0 < min_len (ignorecase p)"
    using first_matching_mem patterns_nonempty by (simp add: min_len_ignorecase)
  show ?thesis
  proof (cases "re_search (ignorecase p) s")
    case None
    with Some show ?thesis by (simp add: try_patterns_first)
  next
    case sm: (Some m)
    from re_sub_first[OF sm pos] Some sm show ?thesis by (simp add: try_patterns_first)
  qed
qed

theorem first_pattern_every_match_removed_witness:
  "try_patterns proficiency_patterns ''x-a1-a2'' = (''x'', Some ''a1'')"
proof -
  have "(case first_matching proficiency_patterns ''x-a1-a2'' of
        None \<Rightarrow> (''x-a1-a2'', None)
      | Some p \<Rightarrow>
          (case re_search (ignorecase p) ''x-a1-a2'' of
             None \<Rightarrow> (''x-a1-a2'', None)
           | Some m \<Rightarrow>
               (take (m_start m) ''x-a1-a2'' @ re_sub_from (ignorecase p) [] ''x-a1-a2'' (m_end m),
                group1 m ''x-a1-a2''))) = (''x'', Some ''a1'')"
    by code_simp
  then show ?thesis
    using first_pattern_every_match_removed [of "''x-a1-a2''"] by (simp only:)
qed

text \<open>
  C3. The claim: the split on the word \<open>and\<close> is case-insensitive, so that
  \<open>English AND French\<close> is split like \<open>English and French\<close>. The pattern is matched
  as written, in lower case: the first fragment stays one candidate, the second gives two.
\<close>

theorem uppercase_and_not_split:
  "and_split ''English AND French'' = [''English AND French''] \<and>
   and_split ''English and French'' = [''English'', ''French'']"
  by code_simp

text \<open>
  C3, amended. A comma-split fragment is split further exactly when it contains the
  word \<open>and\<close> in lower case with a whitespace character before it and one after it.
\<close>

theorem and_split_iff_lowercase_and:
  "1 < length (and_split item) \<longleftrightarrow> (\<exists>k. and_at item k)"
proof
  assume l: "1 < length (and_split item)"
  show "\<exists>k. and_at item k"
  proof (rule ccontr)
    assume "\<not> (\<exists>k. and_at item k)"
    then have "\<forall>j. match_at and_pattern item j = None"
      using some_match_iff_and_at[of item] by (simp add: match_at_None)
    then have "re_split_from and_pattern item 0 0 = [slice item 0 (length item)]"
      by (intro re_split_from_single) simp
    with l show False by (simp add: and_split_def re_split_def)
  qed
next
  assume "\<exists>k. and_at item k"
  then obtain k where k: "and_at item k" ..
  then have kl: "k < length item" by (simp add: and_at_def)
  from k have "rx_at and_pattern item k \<noteq> []" by (rule and_at_match)
  then have "match_at and_pattern item k \<noteq> None" by (simp add: match_at_None)
  moreover have "0 < min_len and_pattern" by (simp add: and_pattern_def)
  ultimately have "1 < length (re_split_from and_pattern item 0 0)"
    using kl by (intro re_split_from_many[of 0 k]) auto
  then show "1 < length (and_split item)" by (simp add: and_split_def re_split_def)
qed

theorem and_split_iff_lowercase_and_witness:
  "1 < length (and_split ''a and b'')"
proof -
  have "and_at ''a and b'' 1" by code_simp
  then show ?thesis using and_split_iff_lowercase_and [of "''a and b''"] by blast
qed

end
